theory Spec2Isabelle
  imports Main
begin

section \<open>Blogify backend: posts, comments and their derived fields\<close>

text \<open>
  The development embeds the two Mongoose models of the repository (Post and Comment,
  with their save hooks) and the route handlers that change them (the post routes and the
  comment routes). A collection is the list of its documents in insertion order; a
  handler is a function from the store to an error or the new store. Object ids and
  dates are natural numbers. The clock is an argument wherever the code reads it
  (\<^verbatim>\<open>new Date()\<close>, \<^verbatim>\<open>Date.now\<close>), and the \<^verbatim>\<open>_id\<close> that the driver
  generates for a new document is an argument of the creating handler. Ids are taken to
  be well-formed: the \<^verbatim>\<open>CastError\<close> branch of the handlers is outside the model, and
  so are faults of the database connection. The users are not part of the store: the
  user of a request is the one that the auth middleware has found, and the populate of
  an author or of a commenter, which only shapes the response, is left out.
\<close>

subsection \<open>Strings\<close>

text \<open>
  A string is a list of code units below 256. \<^verbatim>\<open>\s\<close> of a JavaScript regular
  expression and \<^verbatim>\<open>trim()\<close> agree on what white space is: in this range, tab, line feed,
  vertical tab, form feed, carriage return, space and the no-break space.
\<close>

definition isSpace :: "char \<Rightarrow> bool" where
  "isSpace c = (c \<in> set [CHR 0x09, CHR 0x0A, CHR 0x0B, CHR 0x0C, CHR 0x0D, CHR '' '', CHR 0xA0])"

text \<open>The character class \<^verbatim>\<open>[a-zA-Z0-9]\<close>.\<close>

definition isAlnum :: "char \<Rightarrow> bool" where
  "isAlnum c = (let n = (of_char c :: nat) in
     (48 \<le> n \<and> n \<le> 57) \<or> (65 \<le> n \<and> n \<le> 90) \<or> (97 \<le> n \<and> n \<le> 122))"

text \<open>
  \<^verbatim>\<open>toLowerCase()\<close>: the letters A to Z, and the capital letters of the Latin-1
  supplement (0xC0 to 0xDE without the multiplication sign 0xD7), move up by 32.
\<close>

definition lowerChar :: "char \<Rightarrow> char" where
  "lowerChar c = (let n = (of_char c :: nat) in
     if (65 \<le> n \<and> n \<le> 90) \<or> (192 \<le> n \<and> n \<le> 222 \<and> n \<noteq> 215)
     then char_of (n + 32) else c)"

definition toLowerCase :: "string \<Rightarrow> string" where
  "toLowerCase s = map lowerChar s"

definition trim :: "string \<Rightarrow> string" where
  "trim s = rev (dropWhile isSpace (rev (dropWhile isSpace s)))"

text \<open>\<^verbatim>\<open>.replace(/[^a-zA-Z0-9\s]/g, "")\<close>\<close>

definition removeSymbols :: "string \<Rightarrow> string" where
  "removeSymbols s = filter (\<lambda>c. isAlnum c \<or> isSpace c) s"

text \<open>\<^verbatim>\<open>.replace(/\s+/g, "-")\<close>: every maximal run of white space becomes one hyphen.\<close>

function replaceSpaces :: "string \<Rightarrow> string" where
  "replaceSpaces [] = []"
| "replaceSpaces (c # cs) =
     (if isSpace c then CHR ''-'' # replaceSpaces (dropWhile isSpace cs)
      else c # replaceSpaces cs)"
  by pat_completeness auto
termination
  by (relation "measure length") (auto simp: length_dropWhile_le less_Suc_eq_le)

text \<open>
  \<^verbatim>\<open>.replace(/<[^>]*>/g, "")\<close>: a \<^verbatim>\<open><\<close> with a \<^verbatim>\<open>>\<close> somewhere after it is
  removed together with everything up to the first such \<^verbatim>\<open>>\<close>; a \<^verbatim>\<open><\<close> that is
  never closed stays.
\<close>

function stripTags :: "string \<Rightarrow> string" where
  "stripTags [] = []"
| "stripTags (c # cs) =
     (if c = CHR ''<'' \<and> CHR ''>'' \<in> set cs
      then stripTags (tl (dropWhile (\<lambda>x. x \<noteq> CHR ''>'') cs))
      else c # stripTags cs)"
  by pat_completeness auto
termination
proof (relation "measure length")
  fix c :: char and cs :: string
  have "length (tl (dropWhile (\<lambda>x. x \<noteq> CHR ''>'') cs)) \<le> length (dropWhile (\<lambda>x. x \<noteq> CHR ''>'') cs)"
    by simp
  also have "\<dots> \<le> length cs"
    by (rule length_dropWhile_le)
  finally show "(tl (dropWhile (\<lambda>x. x \<noteq> CHR ''>'') cs), c # cs) \<in> measure length"
    by simp
qed simp_all

text \<open>
  \<^verbatim>\<open>.split(/\s+/)\<close>: the pieces between the maximal runs of white space. A run at the
  start or at the end of the string leaves an empty piece there, and the empty string
  splits into one empty piece, as in JavaScript.
\<close>

function splitSpaces :: "string \<Rightarrow> string list" where
  "splitSpaces s =
     (case dropWhile (\<lambda>c. \<not> isSpace c) s of
        [] \<Rightarrow> [s]
      | r # rs \<Rightarrow> takeWhile (\<lambda>c. \<not> isSpace c) s # splitSpaces (dropWhile isSpace rs))"
  by pat_completeness auto
termination
proof (relation "measure length")
  fix s :: string and r :: char and rs :: string
  assume a: "dropWhile (\<lambda>c. \<not> isSpace c) s = r # rs"
  have "length (dropWhile isSpace rs) \<le> length rs"
    by (rule length_dropWhile_le)
  also have "length rs < length (dropWhile (\<lambda>c. \<not> isSpace c) s)"
    by (simp add: a)
  also have "\<dots> \<le> length s"
    by (rule length_dropWhile_le)
  finally show "(dropWhile isSpace rs, s) \<in> measure length"
    by simp
qed simp

declare splitSpaces.simps [simp del]

subsection \<open>The derived fields of a post\<close>

text \<open>The slug expression of the first pre-save hook of the Post model.\<close>

definition slugify :: "string \<Rightarrow> string" where
  "slugify t = take 50 (replaceSpaces (removeSymbols (toLowerCase t)))"

text \<open>
  The slug in the words of its description, to compare with the expression of the hook:
  the title in lower case, without the characters that are neither a letter from a to z,
  a digit nor white space, with one hyphen for each run of white space (read in one pass,
  \<open>inRun\<close> telling that the character before was white space), cut after 50 characters.
\<close>

definition isLowerAlnum :: "char \<Rightarrow> bool" where
  "isLowerAlnum c = (let n = (of_char c :: nat) in (48 \<le> n \<and> n \<le> 57) \<or> (97 \<le> n \<and> n \<le> 122))"

fun hyphenate :: "bool \<Rightarrow> string \<Rightarrow> string" where
  "hyphenate inRun [] = []"
| "hyphenate inRun (c # cs) =
     (if isSpace c then (if inRun then hyphenate True cs else CHR ''-'' # hyphenate True cs)
      else c # hyphenate False cs)"

definition slug_spec :: "string \<Rightarrow> string" where
  "slug_spec t =
     take 50 (hyphenate False (filter (\<lambda>c. isLowerAlnum c \<or> isSpace c) (map lowerChar t)))"

text \<open>
  The read time of the same hook: \<^verbatim>\<open>Math.ceil(words / wordsPerMinute)\<close>, where
  \<^verbatim>\<open>words\<close> is the length of the array that \<^verbatim>\<open>split\<close> returns.
\<close>

definition wordsPerMinute :: nat where
  "wordsPerMinute = 200"

definition readTimeOf :: "string \<Rightarrow> nat" where
  "readTimeOf c =
     (let ws = length (splitSpaces (stripTags c))
      in (ws + (wordsPerMinute - 1)) div wordsPerMinute)"

definition excerptOf :: "string \<Rightarrow> string" where
  "excerptOf c = take 150 (stripTags c) @ ''...''"

text \<open>
  The words of a text in the usual sense, for comparison with the count the hook uses:
  the nonempty pieces between white space, once the markup is stripped.
\<close>

definition wordsOf :: "string \<Rightarrow> string list" where
  "wordsOf c = filter (\<lambda>w. w \<noteq> []) (splitSpaces (stripTags c))"

definition readTimeByWords :: "string \<Rightarrow> nat" where
  "readTimeByWords c = max 1 ((length (wordsOf c) + 199) div 200)"

subsection \<open>Documents and the store\<close>

type_synonym oid = nat
type_synonym date = nat

record like =
  user :: oid
  createdAt :: date

text \<open>
  The Post schema. An unset \<^verbatim>\<open>excerpt\<close>, \<^verbatim>\<open>slug\<close> or \<^verbatim>\<open>publishedAt\<close> is
  \<open>None\<close>. The \<^verbatim>\<open>updatedAt\<close> and \<^verbatim>\<open>createdAt\<close> stamps of a post, which no
  handler reads, are left out.
\<close>

record post_doc =
  p_id :: oid
  title :: string
  content :: string
  excerpt :: "string option"
  coverImage :: string
  author :: oid
  tags :: "string list"
  category :: string
  status :: string
  views :: nat
  likes :: "like list"
  likesCount :: nat
  commentsCount :: nat
  readTime :: nat
  slug :: "string option"
  publishedAt :: "date option"
  featured :: bool
  seoTitle :: string
  seoDescription :: string

text \<open>The Comment schema; \<^verbatim>\<open>parentComment\<close> is \<open>None\<close> for \<^verbatim>\<open>null\<close>.\<close>

record comment_doc =
  c_id :: oid
  comment :: string
  post :: oid
  userId :: oid
  parentComment :: "oid option"
  replies :: "oid list"
  c_likes :: "like list"
  c_likesCount :: nat
  isEdited :: bool
  editedAt :: "date option"
  isDeleted :: bool
  deletedAt :: "date option"
  c_createdAt :: date

record store =
  posts :: "post_doc list"
  comments :: "comment_doc list"

definition empty_store :: store where
  "empty_store = \<lparr>posts = [], comments = []\<rparr>"

text \<open>The authenticated user of a request, as the auth middleware leaves it in \<^verbatim>\<open>req.user\<close>.\<close>

record req_user =
  u_id :: oid
  u_role :: string

text \<open>
  The outcome of a handler that does not succeed: 404 is \<open>NotFound\<close>, 403 is
  \<open>Forbidden\<close>, 500 is \<open>ServerError\<close>. The three kinds of 400 are told apart by
  their message: a missing or invalid field is \<open>ValidationError\<close>, "Invalid parent
  comment" is \<open>InvalidParent\<close>, and "Cannot comment on unpublished posts", "Cannot edit
  deleted comment" and "Cannot like deleted comment" are \<open>InvalidState\<close>.
\<close>

datatype error = NotFound | Forbidden | ValidationError | InvalidState | InvalidParent | ServerError

definition findPost :: "oid \<Rightarrow> store \<Rightarrow> post_doc option" where
  "findPost i s = find (\<lambda>p. p_id p = i) (posts s)"

definition findComment :: "oid \<Rightarrow> store \<Rightarrow> comment_doc option" where
  "findComment i s = find (\<lambda>c. c_id c = i) (comments s)"

text \<open>
  \<^verbatim>\<open>isModified(path)\<close> of a Mongoose document at the time of its save. \<open>old\<close> is the
  document as it was loaded, \<open>None\<close> for a new document. A path of a new document that
  the constructor has set is modified; a path of a loaded document is modified when its
  value differs from the loaded one, since an assignment of an equal value does not mark
  the path.
\<close>

definition isModified :: "('d \<Rightarrow> 'v) \<Rightarrow> 'd option \<Rightarrow> 'd \<Rightarrow> bool" where
  "isModified path old d = (case old of None \<Rightarrow> True | Some d0 \<Rightarrow> path d0 \<noteq> path d)"

text \<open>JavaScript's \<^verbatim>\<open>!x\<close> on a string field that may be unset.\<close>

definition unsetOrEmpty :: "string option \<Rightarrow> bool" where
  "unsetOrEmpty x = (case x of None \<Rightarrow> True | Some v \<Rightarrow> v = [])"

subsection \<open>Saving a post\<close>

text \<open>
  The validators of the Post schema, which run before the pre-save hooks of the model, on
  the required paths and on the modified ones: required title of at most 200 characters,
  required content of at least 10, excerpt of at most 300, status in the enumeration, SEO
  title of at most 60 and SEO description of at most 160.
\<close>

definition validate_post :: "post_doc option \<Rightarrow> post_doc \<Rightarrow> bool" where
  "validate_post old p =
     (title p \<noteq> [] \<and> length (title p) \<le> 200 \<and>
      content p \<noteq> [] \<and> 10 \<le> length (content p) \<and>
      (isModified excerpt old p \<longrightarrow> (case excerpt p of None \<Rightarrow> True | Some e \<Rightarrow> length e \<le> 300)) \<and>
      (isModified status old p \<longrightarrow> status p \<in> set [''Draft'', ''Published'', ''Archived'']) \<and>
      (isModified seoTitle old p \<longrightarrow> length (seoTitle p) \<le> 60) \<and>
      (isModified seoDescription old p \<longrightarrow> length (seoDescription p) \<le> 160))"

text \<open>The first pre-save hook of the Post model: slug, read time and excerpt, published date.\<close>

definition post_pre_save :: "post_doc option \<Rightarrow> date \<Rightarrow> post_doc \<Rightarrow> post_doc" where
  "post_pre_save old now p =
     (let p1 = (if isModified title old p \<and> unsetOrEmpty (slug p)
                then p\<lparr>slug := Some (slugify (title p))\<rparr> else p);
          p2 = (if isModified content old p1
                then (let q = p1\<lparr>readTime := readTimeOf (content p1)\<rparr>
                      in if unsetOrEmpty (excerpt q)
                         then q\<lparr>excerpt := Some (excerptOf (content q))\<rparr> else q)
                else p1)
      in if isModified status old p2 \<and> status p2 = ''Published'' \<and> publishedAt p2 = None
         then p2\<lparr>publishedAt := Some now\<rparr> else p2)"

text \<open>The second pre-save hook of the Post model: the likes count.\<close>

definition post_pre_save_likes :: "post_doc option \<Rightarrow> post_doc \<Rightarrow> post_doc" where
  "post_pre_save_likes old p =
     (if isModified likes old p then p\<lparr>likesCount := length (likes p)\<rparr> else p)"

text \<open>
  The unique sparse index on \<^verbatim>\<open>slug\<close>: a write that sets the slug of a document to a
  value another document has is refused.
\<close>

definition slug_taken :: "post_doc \<Rightarrow> store \<Rightarrow> bool" where
  "slug_taken p s =
     (slug p \<noteq> None \<and> list_ex (\<lambda>q. p_id q \<noteq> p_id p \<and> slug q = slug p) (posts s))"

definition write_post :: "post_doc option \<Rightarrow> post_doc \<Rightarrow> store \<Rightarrow> store" where
  "write_post old p s =
     (case old of
        None \<Rightarrow> s\<lparr>posts := posts s @ [p]\<rparr>
      | Some _ \<Rightarrow> s\<lparr>posts := map (\<lambda>q. if p_id q = p_id p then p else q) (posts s)\<rparr>)"

text \<open>
  \<^verbatim>\<open>post.save()\<close>: validation, the two hooks, then the write. An insert with an
  \<^verbatim>\<open>_id\<close> that is in the collection, and a write against the slug index, fail with a
  duplicate key error, which the handlers answer with 500.
\<close>

definition post_save :: "post_doc option \<Rightarrow> date \<Rightarrow> post_doc \<Rightarrow> store \<Rightarrow> error + store" where
  "post_save old now p s =
     (if \<not> validate_post old p then Inl ValidationError
      else let p' = post_pre_save_likes old (post_pre_save old now p)
           in if old = None \<and> findPost (p_id p') s \<noteq> None then Inl ServerError
              else if isModified slug old p' \<and> slug_taken p' s then Inl ServerError
              else Inr (write_post old p' s))"

subsection \<open>The post routes\<close>

text \<open>
  The body of a create or update request. A string field that the handler tests for
  truth (\<^verbatim>\<open>title\<close>, \<^verbatim>\<open>content\<close>, \<^verbatim>\<open>category\<close>, \<^verbatim>\<open>status\<close>) is empty when the
  request leaves it out; a field that the update handler compares with \<^verbatim>\<open>undefined\<close>
  is an option.
\<close>

record post_body =
  b_title :: string
  b_content :: string
  b_tags :: "string list option"
  b_category :: string
  b_coverImage :: "string option"
  b_status :: string
  b_seoTitle :: "string option"
  b_seoDescription :: "string option"

definition orElse :: "string \<Rightarrow> string \<Rightarrow> string" where
  "orElse x d = (if x = [] then d else x)"

definition optOrEmpty :: "string option \<Rightarrow> string" where
  "optOrEmpty x = (case x of None \<Rightarrow> [] | Some v \<Rightarrow> v)"

text \<open>The setters of the \<^verbatim>\<open>tags\<close> path: each tag trimmed and in lower case.\<close>

definition setTags :: "string list \<Rightarrow> string list" where
  "setTags ts = map (\<lambda>t. toLowerCase (trim t)) ts"

text \<open>
  \<^verbatim>\<open>new Post({ ... })\<close> of the create handler, with the defaults of the schema for
  the paths it leaves out.
\<close>

definition new_post :: "req_user \<Rightarrow> oid \<Rightarrow> post_body \<Rightarrow> post_doc" where
  "new_post u new_id b =
     \<lparr>p_id = new_id,
      title = trim (b_title b),
      content = b_content b,
      excerpt = None,
      coverImage = optOrEmpty (b_coverImage b),
      author = u_id u,
      tags = setTags (case b_tags b of None \<Rightarrow> [] | Some ts \<Rightarrow> ts),
      category = trim (orElse (b_category b) ''Other''),
      status = orElse (b_status b) ''Draft'',
      views = 0,
      likes = [],
      likesCount = 0,
      commentsCount = 0,
      readTime = 1,
      slug = None,
      publishedAt = None,
      featured = False,
      seoTitle = optOrEmpty (b_seoTitle b),
      seoDescription = optOrEmpty (b_seoDescription b)\<rparr>"

text \<open>\<^verbatim>\<open>POST /api/posts\<close>\<close>

definition create_post :: "req_user \<Rightarrow> oid \<Rightarrow> date \<Rightarrow> post_body \<Rightarrow> store \<Rightarrow> error + store" where
  "create_post u new_id now b s =
     (if b_title b = [] \<or> b_content b = [] then Inl ValidationError
      else post_save None now (new_post u new_id b) s)"

text \<open>The field assignments of \<^verbatim>\<open>PUT /api/posts/:id\<close>, in the order of the handler.\<close>

definition apply_body :: "post_body \<Rightarrow> post_doc \<Rightarrow> post_doc" where
  "apply_body b p =
     (let p1 = (if b_title b \<noteq> [] then p\<lparr>title := trim (b_title b)\<rparr> else p);
          p2 = (if b_content b \<noteq> [] then p1\<lparr>content := b_content b\<rparr> else p1);
          p3 = (case b_tags b of None \<Rightarrow> p2 | Some ts \<Rightarrow> p2\<lparr>tags := setTags ts\<rparr>);
          p4 = (if b_category b \<noteq> [] then p3\<lparr>category := trim (b_category b)\<rparr> else p3);
          p5 = (case b_coverImage b of None \<Rightarrow> p4 | Some x \<Rightarrow> p4\<lparr>coverImage := x\<rparr>);
          p6 = (if b_status b \<noteq> [] then p5\<lparr>status := b_status b\<rparr> else p5);
          p7 = (case b_seoTitle b of None \<Rightarrow> p6 | Some x \<Rightarrow> p6\<lparr>seoTitle := x\<rparr>)
      in (case b_seoDescription b of None \<Rightarrow> p7 | Some x \<Rightarrow> p7\<lparr>seoDescription := x\<rparr>))"

definition ownerOrAdmin :: "req_user \<Rightarrow> oid \<Rightarrow> bool" where
  "ownerOrAdmin u owner = (\<not> (owner \<noteq> u_id u \<and> u_role u \<noteq> ''admin''))"

text \<open>\<^verbatim>\<open>PUT /api/posts/:id\<close>\<close>

definition update_post :: "req_user \<Rightarrow> oid \<Rightarrow> date \<Rightarrow> post_body \<Rightarrow> store \<Rightarrow> error + store" where
  "update_post u i now b s =
     (case findPost i s of
        None \<Rightarrow> Inl NotFound
      | Some p \<Rightarrow>
          if \<not> ownerOrAdmin u (author p) then Inl Forbidden
          else post_save (Some p) now (apply_body b p) s)"

text \<open>
  \<^verbatim>\<open>DELETE /api/posts/:id\<close>: \<^verbatim>\<open>Comment.deleteMany({ post: post._id })\<close>, then
  \<^verbatim>\<open>Post.findByIdAndDelete\<close>. Neither runs a hook of the models.
\<close>

definition deleteMany_comments :: "oid \<Rightarrow> store \<Rightarrow> store" where
  "deleteMany_comments i s = s\<lparr>comments := filter (\<lambda>c. post c \<noteq> i) (comments s)\<rparr>"

definition findByIdAndDelete_post :: "oid \<Rightarrow> store \<Rightarrow> store" where
  "findByIdAndDelete_post i s = s\<lparr>posts := filter (\<lambda>p. p_id p \<noteq> i) (posts s)\<rparr>"

definition delete_post :: "req_user \<Rightarrow> oid \<Rightarrow> store \<Rightarrow> error + store" where
  "delete_post u i s =
     (case findPost i s of
        None \<Rightarrow> Inl NotFound
      | Some p \<Rightarrow>
          if \<not> ownerOrAdmin u (author p) then Inl Forbidden
          else Inr (findByIdAndDelete_post i (deleteMany_comments (p_id p) s)))"

text \<open>
  The like toggle that the post route and the comment route both spell out: the entries
  of the user are filtered out when there is one, and an entry is pushed otherwise.
\<close>

definition toggleLikes :: "oid \<Rightarrow> date \<Rightarrow> like list \<Rightarrow> like list" where
  "toggleLikes uid now ls =
     (case find (\<lambda>l. user l = uid) ls of
        Some _ \<Rightarrow> filter (\<lambda>l. user l \<noteq> uid) ls
      | None \<Rightarrow> ls @ [\<lparr>user = uid, createdAt = now\<rparr>])"

text \<open>\<^verbatim>\<open>POST /api/posts/:id/like\<close>\<close>

definition like_post :: "req_user \<Rightarrow> oid \<Rightarrow> date \<Rightarrow> store \<Rightarrow> error + store" where
  "like_post u i now s =
     (case findPost i s of
        None \<Rightarrow> Inl NotFound
      | Some p \<Rightarrow> post_save (Some p) now (p\<lparr>likes := toggleLikes (u_id u) now (likes p)\<rparr>) s)"

text \<open>
  \<^verbatim>\<open>GET /api/posts/:id\<close>, which saves the post when it counts a view. The viewer is
  \<open>None\<close> for an anonymous request.
\<close>

definition get_post :: "req_user option \<Rightarrow> oid \<Rightarrow> date \<Rightarrow> store \<Rightarrow> error + store" where
  "get_post viewer i now s =
     (case findPost i s of
        None \<Rightarrow> Inl NotFound
      | Some p \<Rightarrow>
          if status p \<noteq> ''Published'' \<and>
             (case viewer of None \<Rightarrow> True | Some u \<Rightarrow> \<not> ownerOrAdmin u (author p))
          then Inl NotFound
          else if status p = ''Published'' \<and>
             (case viewer of None \<Rightarrow> True | Some u \<Rightarrow> u_id u \<noteq> author p)
          then post_save (Some p) now (p\<lparr>views := views p + 1\<rparr>) s
          else Inr s)"

subsection \<open>The seed script\<close>

text \<open>
  The update with which the seed script adds likes to a post,
  \<^verbatim>\<open>Post.findByIdAndUpdate(id, { $push: { likes: [{ user: ... }, ...] } })\<close>: an
  entry for each of the users is added to the likes of the post. It is an update of the
  collection and not a save of a document: no hook of the Post model runs, and the likes
  count is not written.
\<close>

definition seed_push_likes :: "oid \<Rightarrow> oid list \<Rightarrow> date \<Rightarrow> store \<Rightarrow> store" where
  "seed_push_likes i us now s =
     s\<lparr>posts := map (\<lambda>q. if p_id q = i
                          then q\<lparr>likes := likes q @ map (\<lambda>u. \<lparr>user = u, createdAt = now\<rparr>) us\<rparr>
                          else q) (posts s)\<rparr>"

subsection \<open>Saving a comment\<close>

text \<open>
  The validators of the Comment schema: the text is required, of at least 1 and at most
  1000 characters.
\<close>

definition validate_comment :: "comment_doc \<Rightarrow> bool" where
  "validate_comment c = (comment c \<noteq> [] \<and> 1 \<le> length (comment c) \<and> length (comment c) \<le> 1000)"

text \<open>
  The pre-save hook of the Comment model: the likes count, and the edit mark when the
  text of a comment that is not new is modified.
\<close>

definition comment_pre_save :: "comment_doc option \<Rightarrow> date \<Rightarrow> comment_doc \<Rightarrow> comment_doc" where
  "comment_pre_save old now c =
     (let c1 = (if isModified c_likes old c then c\<lparr>c_likesCount := length (c_likes c)\<rparr> else c)
      in if isModified comment old c1 \<and> old \<noteq> None
         then c1\<lparr>isEdited := True, editedAt := Some now\<rparr> else c1)"

text \<open>\<^verbatim>\<open>countDocuments({ post: i, isDeleted: false })\<close> on the comments.\<close>

definition countDocuments :: "oid \<Rightarrow> store \<Rightarrow> nat" where
  "countDocuments i s = length (filter (\<lambda>c. post c = i \<and> \<not> isDeleted c) (comments s))"

text \<open>
  The post-save hook of the Comment model: the count of the comments of the post that
  are not deleted is written to the post with \<^verbatim>\<open>Post.findByIdAndUpdate\<close>, which runs no
  hook of the Post model and does nothing when there is no such post.
\<close>

definition comment_post_save :: "comment_doc \<Rightarrow> store \<Rightarrow> store" where
  "comment_post_save c s =
     s\<lparr>posts := map (\<lambda>q. if p_id q = post c
                          then q\<lparr>commentsCount := countDocuments (post c) s\<rparr> else q) (posts s)\<rparr>"

definition write_comment :: "comment_doc option \<Rightarrow> comment_doc \<Rightarrow> store \<Rightarrow> store" where
  "write_comment old c s =
     (case old of
        None \<Rightarrow> s\<lparr>comments := comments s @ [c]\<rparr>
      | Some _ \<Rightarrow> s\<lparr>comments := map (\<lambda>d. if c_id d = c_id c then c else d) (comments s)\<rparr>)"

text \<open>\<^verbatim>\<open>comment.save()\<close>: validation, the pre-save hook, the write, the post-save hook.\<close>

definition comment_save :: "comment_doc option \<Rightarrow> date \<Rightarrow> comment_doc \<Rightarrow> store \<Rightarrow> error + store" where
  "comment_save old now c s =
     (if \<not> validate_comment c then Inl ValidationError
      else let c' = comment_pre_save old now c
           in if old = None \<and> findComment (c_id c') s \<noteq> None then Inl ServerError
              else Inr (comment_post_save c' (write_comment old c' s)))"

subsection \<open>The comment routes\<close>

text \<open>\<^verbatim>\<open>!comment || comment.trim().length === 0\<close>\<close>

definition blank :: "string \<Rightarrow> bool" where
  "blank b = (b = [] \<or> length (trim b) = 0)"

text \<open>\<^verbatim>\<open>Comment.findByIdAndUpdate(parentComment, { $push: { replies: newComment._id } })\<close>\<close>

definition push_reply :: "oid \<Rightarrow> oid \<Rightarrow> store \<Rightarrow> store" where
  "push_reply parent i s =
     s\<lparr>comments := map (\<lambda>d. if c_id d = parent then d\<lparr>replies := replies d @ [i]\<rparr> else d)
                        (comments s)\<rparr>"

text \<open>
  \<^verbatim>\<open>new Comment({ ... })\<close> of the create handler. The parent is \<open>None\<close> when the
  body of the request has no \<^verbatim>\<open>parentComment\<close>. The time stamp of the comment is the
  one of its save.
\<close>

definition new_comment :: "req_user \<Rightarrow> oid \<Rightarrow> date \<Rightarrow> oid \<Rightarrow> string \<Rightarrow> oid option \<Rightarrow> comment_doc" where
  "new_comment u new_id now postId b parent =
     \<lparr>c_id = new_id,
      comment = trim b,
      post = postId,
      userId = u_id u,
      parentComment = parent,
      replies = [],
      c_likes = [],
      c_likesCount = 0,
      isEdited = False,
      editedAt = None,
      isDeleted = False,
      deletedAt = None,
      c_createdAt = now\<rparr>"

text \<open>The check of the parent in the create handler: true when the request is refused.\<close>

definition invalid_parent :: "oid option \<Rightarrow> oid \<Rightarrow> store \<Rightarrow> bool" where
  "invalid_parent parent postId s =
     (case parent of
        None \<Rightarrow> False
      | Some pc \<Rightarrow> (case findComment pc s of
                      None \<Rightarrow> True
                    | Some parentCommentDoc \<Rightarrow> post parentCommentDoc \<noteq> postId))"

text \<open>\<^verbatim>\<open>POST /api/comments/:postId\<close>\<close>

definition create_comment ::
  "req_user \<Rightarrow> oid \<Rightarrow> date \<Rightarrow> oid \<Rightarrow> string \<Rightarrow> oid option \<Rightarrow> store \<Rightarrow> error + store" where
  "create_comment u new_id now postId b parent s =
     (if blank b then Inl ValidationError
      else case findPost postId s of
        None \<Rightarrow> Inl NotFound
      | Some p \<Rightarrow>
          if status p \<noteq> ''Published'' then Inl InvalidState
          else if invalid_parent parent postId s then Inl InvalidParent
          else (case comment_save None now (new_comment u new_id now postId b parent) s of
                  Inl e \<Rightarrow> Inl e
                | Inr s1 \<Rightarrow> Inr (case parent of None \<Rightarrow> s1 | Some pc \<Rightarrow> push_reply pc new_id s1)))"

text \<open>\<^verbatim>\<open>PUT /api/comments/:commentId\<close>\<close>

definition edit_comment :: "req_user \<Rightarrow> oid \<Rightarrow> date \<Rightarrow> string \<Rightarrow> store \<Rightarrow> error + store" where
  "edit_comment u i now b s =
     (if blank b then Inl ValidationError
      else case findComment i s of
        None \<Rightarrow> Inl NotFound
      | Some existingComment \<Rightarrow>
          if isDeleted existingComment then Inl InvalidState
          else if userId existingComment \<noteq> u_id u then Inl Forbidden
          else comment_save (Some existingComment) now (existingComment\<lparr>comment := trim b\<rparr>) s)"

definition deletedText :: string where
  "deletedText = ''[This comment has been deleted]''"

text \<open>
  \<^verbatim>\<open>DELETE /api/comments/:commentId\<close>. The handler reads the clock for
  \<^verbatim>\<open>deletedAt\<close> (\<open>now\<close>), and the pre-save hook reads it again when the save runs
  (\<open>saved\<close>).
\<close>

definition delete_comment :: "req_user \<Rightarrow> oid \<Rightarrow> date \<Rightarrow> date \<Rightarrow> store \<Rightarrow> error + store" where
  "delete_comment u i now saved s =
     (case findComment i s of
        None \<Rightarrow> Inl NotFound
      | Some c \<Rightarrow>
          if \<not> ownerOrAdmin u (userId c) then Inl Forbidden
          else comment_save (Some c) saved
                 (c\<lparr>isDeleted := True, deletedAt := Some now, comment := deletedText\<rparr>) s)"

text \<open>\<^verbatim>\<open>POST /api/comments/:commentId/like\<close>\<close>

definition like_comment :: "req_user \<Rightarrow> oid \<Rightarrow> date \<Rightarrow> store \<Rightarrow> error + store" where
  "like_comment u i now s =
     (case findComment i s of
        None \<Rightarrow> Inl NotFound
      | Some c \<Rightarrow>
          if isDeleted c then Inl InvalidState
          else comment_save (Some c) now (c\<lparr>c_likes := toggleLikes (u_id u) now (c_likes c)\<rparr>) s)"

text \<open>
  \<^verbatim>\<open>GET /api/comments/:postId\<close>: the top-level comments of the post that are not
  deleted, newest first, one page of them, each with the documents of its
  \<^verbatim>\<open>replies\<close> that exist and are not deleted (the \<^verbatim>\<open>match\<close> of the populate). A
  page or a limit of 0 stands for a query parameter that is absent, not a number or zero,
  for which \<^verbatim>\<open>||\<close> takes the default.
\<close>

definition populate_replies :: "store \<Rightarrow> comment_doc \<Rightarrow> comment_doc list" where
  "populate_replies s c =
     List.map_filter
       (\<lambda>i. case findComment i s of
               None \<Rightarrow> None
             | Some d \<Rightarrow> if isDeleted d then None else Some d)
       (replies c)"

definition list_comments ::
  "oid \<Rightarrow> nat \<Rightarrow> nat \<Rightarrow> store \<Rightarrow> error + (comment_doc \<times> comment_doc list) list" where
  "list_comments postId page limit s =
     (case findPost postId s of
        None \<Rightarrow> Inl NotFound
      | Some _ \<Rightarrow>
          let page' = (if page = 0 then 1 else page);
              limit' = (if limit = 0 then 20 else limit);
              skip = (page' - 1) * limit';
              found = filter (\<lambda>c. post c = postId \<and> \<not> isDeleted c \<and> parentComment c = None)
                        (comments s);
              sorted = rev (sort_key c_createdAt found)
          in Inr (map (\<lambda>c. (c, populate_replies s c)) (take limit' (drop skip sorted))))"

subsection \<open>Requests and runs\<close>

datatype request =
    CreatePost req_user oid date post_body
  | UpdatePost req_user oid date post_body
  | DeletePost req_user oid
  | LikePost req_user oid date
  | GetPost "req_user option" oid date
  | CreateComment req_user oid date oid string "oid option"
  | EditComment req_user oid date string
  | DeleteComment req_user oid date date
  | LikeComment req_user oid date

fun exec :: "request \<Rightarrow> store \<Rightarrow> error + store" where
  "exec (CreatePost u i now b) s = create_post u i now b s"
| "exec (UpdatePost u i now b) s = update_post u i now b s"
| "exec (DeletePost u i) s = delete_post u i s"
| "exec (LikePost u i now) s = like_post u i now s"
| "exec (GetPost v i now) s = get_post v i now s"
| "exec (CreateComment u i now p b par) s = create_comment u i now p b par s"
| "exec (EditComment u i now b) s = edit_comment u i now b s"
| "exec (DeleteComment u i now saved) s = delete_comment u i now saved s"
| "exec (LikeComment u i now) s = like_comment u i now s"

text \<open>A request that fails writes nothing; a run carries on from the store as it was.\<close>

fun run :: "request list \<Rightarrow> store \<Rightarrow> store" where
  "run [] s = s"
| "run (r # rs) s = (case exec r s of Inl _ \<Rightarrow> run rs s | Inr s' \<Rightarrow> run rs s')"

text \<open>A sequence of requests of which each one succeeds.\<close>

fun steps :: "request list \<Rightarrow> store \<Rightarrow> error + store" where
  "steps [] s = Inr s"
| "steps (r # rs) s = (case exec r s of Inl e \<Rightarrow> Inl e | Inr s' \<Rightarrow> steps rs s')"

subsection \<open>Consistency of a store\<close>

definition counters_ok :: "store \<Rightarrow> bool" where
  "counters_ok s =
     list_all (\<lambda>p. likesCount p = length (likes p) \<and> commentsCount p = countDocuments (p_id p) s)
       (posts s)"

definition refs_ok :: "store \<Rightarrow> bool" where
  "refs_ok s = list_all (\<lambda>c. findPost (post c) s \<noteq> None) (comments s)"

definition ids_ok :: "store \<Rightarrow> bool" where
  "ids_ok s = (distinct (map p_id (posts s)) \<and> distinct (map c_id (comments s)))"

definition published_ok :: "store \<Rightarrow> bool" where
  "published_ok s = list_all (\<lambda>p. status p = ''Published'' \<longrightarrow> publishedAt p \<noteq> None) (posts s)"

definition comment_likes_ok :: "store \<Rightarrow> bool" where
  "comment_likes_ok s = list_all (\<lambda>c. c_likesCount c = length (c_likes c)) (comments s)"

definition valid_ok :: "store \<Rightarrow> bool" where
  "valid_ok s =
     (list_all (\<lambda>p. title p \<noteq> [] \<and> length (title p) \<le> 200 \<and> 10 \<le> length (content p)) (posts s) \<and>
      list_all validate_comment (comments s))"

definition store_ok :: "store \<Rightarrow> bool" where
  "store_ok s =
     (ids_ok s \<and> refs_ok s \<and> counters_ok s \<and> comment_likes_ok s \<and> published_ok s \<and> valid_ok s)"

subsection \<open>Sample inputs\<close>

text \<open>A paragraph of \<open>n\<close> words, each followed by one space.\<close>

definition wordsHtml :: "nat \<Rightarrow> string" where
  "wordsHtml n = ''<p>'' @ concat (replicate n ''word '') @ ''</p>''"

definition alice :: req_user where
  "alice = \<lparr>u_id = 1, u_role = ''user''\<rparr>"

definition bob :: req_user where
  "bob = \<lparr>u_id = 2, u_role = ''user''\<rparr>"

text \<open>A request body with a title, a content and a status, and nothing else.\<close>

definition plain_body :: "string \<Rightarrow> string \<Rightarrow> string \<Rightarrow> post_body" where
  "plain_body t c st =
     \<lparr>b_title = t, b_content = c, b_tags = None, b_category = [], b_coverImage = None,
      b_status = st, b_seoTitle = None, b_seoDescription = None\<rparr>"

text \<open>
  A published post of alice, the same with a comment of bob and alice's reply to it, and
  a draft whose title has no letter or digit.
\<close>

definition hello_create :: request where
  "hello_create = CreatePost alice 1 10 (plain_body ''Hello World!'' ''Some text, long enough.'' ''Published'')"

definition hello_store :: store where
  "hello_store = run [hello_create] empty_store"

definition thread_requests :: "request list" where
  "thread_requests =
     [hello_create,
      CreateComment bob 1 20 1 ''First!'' None,
      CreateComment alice 2 30 1 ''Thanks.'' (Some 1)]"

definition thread_store :: store where
  "thread_store = run thread_requests empty_store"

definition draft_create :: request where
  "draft_create = CreatePost alice 1 10 (plain_body ''!!!'' ''Some text, long enough.'' [])"

definition draft_store :: store where
  "draft_store = run [draft_create] empty_store"

text \<open>An update that sets the title, and one that sets the status.\<close>

definition retitle :: request where
  "retitle = UpdatePost alice 1 20 (plain_body ''Another title'' [] [])"

definition set_status :: "date \<Rightarrow> string \<Rightarrow> request" where
  "set_status now st = UpdatePost alice 1 now (plain_body [] [] st)"

text \<open>The draft, published at 20 and archived at 30.\<close>

definition archived_requests :: "request list" where
  "archived_requests = [draft_create, set_status 20 ''Published'', set_status 30 ''Archived'']"

text \<open>The sample thread with a like of bob on the post and one on the first comment.\<close>

definition liked_requests :: "request list" where
  "liked_requests = thread_requests @ [LikePost bob 1 50, LikeComment bob 1 55]"

text \<open>
  The published post with three likes that the update of the seed script has added, and
  an edit, a comment and a view of it.
\<close>

definition seeded_store :: store where
  "seeded_store = seed_push_likes 1 [2, 3, 4] 15 hello_store"

definition seeded_requests :: "request list" where
  "seeded_requests = [retitle, CreateComment bob 1 30 1 ''Nice.'' None, GetPost None 1 40]"

text \<open>A reply to the reply of the sample thread.\<close>

definition reply_to_reply :: "request list" where
  "reply_to_reply = thread_requests @ [CreateComment bob 3 40 1 ''Welcome.'' (Some 2)]"

text \<open>A comment whose text is the one that a soft delete writes, and its soft delete.\<close>

definition delete_placeholder :: "request list" where
  "delete_placeholder =
     [hello_create,
      CreateComment bob 1 20 1 ''[This comment has been deleted]'' None,
      DeleteComment bob 1 30 31]"

text \<open>
  Two posts are the same in the fields that only the update handler can change through
  the first pre-save hook.
\<close>

definition same_derived :: "post_doc \<Rightarrow> post_doc \<Rightarrow> bool" where
  "same_derived p p' =
     (slug p' = slug p \<and> publishedAt p' = publishedAt p \<and> status p' = status p \<and> title p' = title p)"

section \<open>Properties\<close>

subsection \<open>Splitting a run of words\<close>

lemma stripTags_plain: "CHR ''<'' \<notin> set s \<Longrightarrow> stripTags (s @ t) = s @ stripTags t"
  by (induction s) auto

lemma splitSpaces_Nil: "splitSpaces [] = [[]]"
  by (subst splitSpaces.simps) simp

lemma splitSpaces_word: "splitSpaces (''word '' @ r) = ''word'' # splitSpaces (dropWhile isSpace r)"
  by (subst splitSpaces.simps) (simp add: isSpace_def)

lemma dropWhile_words: "dropWhile isSpace (concat (replicate n ''word '')) = concat (replicate n ''word '')"
  by (cases n) (simp_all add: isSpace_def)

lemma splitSpaces_words: "splitSpaces (concat (replicate n ''word '')) = replicate n ''word'' @ [[]]"
proof (induction n)
  case 0
  show ?case by (simp add: splitSpaces_Nil)
next
  case (Suc n)
  have "splitSpaces (concat (replicate (Suc n) ''word '')) = splitSpaces (''word '' @ concat (replicate n ''word ''))"
    by simp
  also have "\<dots> = ''word'' # splitSpaces (concat (replicate n ''word ''))"
    by (simp only: splitSpaces_word dropWhile_words)
  finally show ?case using Suc by simp
qed

lemma words_no_tag: "CHR ''<'' \<notin> set (concat (replicate n ''word ''))"
  by (induction n) auto

lemma stripTags_words:
  "stripTags (''<p>'' @ concat (replicate n ''word '') @ ''</p>'') = concat (replicate n ''word '')"
proof -
  have "stripTags (''<p>'' @ concat (replicate n ''word '') @ ''</p>'')
      = stripTags (concat (replicate n ''word '') @ ''</p>'')"
    by simp
  also have "\<dots> = concat (replicate n ''word '') @ stripTags ''</p>''"
    by (rule stripTags_plain) (rule words_no_tag)
  also have "stripTags ''</p>'' = []"
    by simp
  finally show ?thesis by simp
qed

lemma stripTags_wordsHtml: "stripTags (wordsHtml n) = concat (replicate n ''word '')"
  unfolding wordsHtml_def by (rule stripTags_words)

lemma readTimeOf_wordsHtml: "readTimeOf (wordsHtml n) = (n + 200) div 200"
  by (simp add: readTimeOf_def stripTags_wordsHtml splitSpaces_words wordsPerMinute_def)

lemma wordsOf_wordsHtml: "wordsOf (wordsHtml n) = replicate n ''word''"
  by (simp add: wordsOf_def stripTags_wordsHtml splitSpaces_words)


subsection \<open>Lists of documents\<close>

lemma find_replace_same:
  "find (\<lambda>q. k q = i) xs \<noteq> None \<Longrightarrow> k x = i \<Longrightarrow>
   find (\<lambda>q. k q = i) (map (\<lambda>q. if k q = i then x else q) xs) = Some x"
  by (induction xs) auto

lemma find_replace_none:
  "k x = i \<Longrightarrow>
   (find (\<lambda>q. k q = i) (map (\<lambda>q. if k q = i then x else q) xs) = None) =
   (find (\<lambda>q. k q = i) xs = None)"
  by (induction xs) auto

lemma find_replace_other:
  "k x = i \<Longrightarrow> j \<noteq> i \<Longrightarrow>
   find (\<lambda>q. k q = j) (map (\<lambda>q. if k q = i then x else q) xs) = find (\<lambda>q. k q = j) xs"
  by (induction xs) auto

lemma map_key_replace:
  "k x = i \<Longrightarrow> map k (map (\<lambda>q. if k q = i then x else q) xs) = map k xs"
  by (induction xs) auto

lemma find_key: "find (\<lambda>q. k q = i) xs = Some x \<Longrightarrow> x \<in> set xs \<and> k x = i"
  by (induction xs) (auto split: if_splits)

lemma find_None_key: "(find (\<lambda>q. k q = i) xs = None) = (i \<notin> k ` set xs)"
  by (induction xs) auto

lemma find_distinct:
  "distinct (map k xs) \<Longrightarrow> x \<in> set xs \<Longrightarrow> find (\<lambda>q. k q = k x) xs = Some x"
  by (induction xs) (auto simp: rev_image_eqI)

lemma find_append_new:
  "find (\<lambda>q. k q = i) xs = None \<Longrightarrow> k x = i \<Longrightarrow> find (\<lambda>q. k q = i) (xs @ [x]) = Some x"
  by (induction xs) (auto split: if_splits)

lemma find_append_old:
  "k x \<noteq> j \<Longrightarrow> find (\<lambda>q. k q = j) (xs @ [x]) = find (\<lambda>q. k q = j) xs"
  by (induction xs) auto

lemma count_replace:
  "distinct (map k xs) \<Longrightarrow> x0 \<in> set xs \<Longrightarrow> k x = k x0 \<Longrightarrow>
   length (filter P (map (\<lambda>q. if k q = k x0 then x else q) xs)) + (if P x0 then 1 else 0) =
   length (filter P xs) + (if P x then 1 else 0)"
proof (induction xs)
  case Nil
  then show ?case by simp
next
  case (Cons a xs)
  show ?case
  proof (cases "a = x0")
    case True
    with Cons.prems have "k x0 \<notin> k ` set xs" by simp
    then have "map (\<lambda>q. if k q = k x0 then x else q) xs = xs"
      by (intro map_idI) (auto simp: image_iff)
    with True show ?thesis by simp
  next
    case False
    with Cons.prems have "x0 \<in> set xs" "distinct (map k xs)" "k a \<noteq> k x0"
      by (auto simp: rev_image_eqI)
    with Cons.IH Cons.prems(3) show ?thesis by simp
  qed
qed

lemma count_map_same:
  "(\<And>x. x \<in> set xs \<Longrightarrow> P (f x) = P x) \<Longrightarrow> length (filter P (map f xs)) = length (filter P xs)"
  by (induction xs) auto

lemma list_all_map_same:
  "(\<And>x. x \<in> set xs \<Longrightarrow> P (f x) = P x) \<Longrightarrow> list_all P (map f xs) = list_all P xs"
  by (induction xs) auto

lemma map_key_same: "(\<And>x. x \<in> set xs \<Longrightarrow> k (f x) = k x) \<Longrightarrow> map k (map f xs) = map k xs"
  by (induction xs) auto

lemma findPost_None: "(findPost j s = None) = (j \<notin> set (map p_id (posts s)))"
  by (simp add: findPost_def find_None_key)

lemma findComment_None: "(findComment j s = None) = (j \<notin> set (map c_id (comments s)))"
  by (simp add: findComment_def find_None_key)

lemma findPost_Some: "findPost i s = Some p \<Longrightarrow> p \<in> set (posts s) \<and> p_id p = i"
  unfolding findPost_def by (rule find_key)

lemma findComment_Some: "findComment i s = Some c \<Longrightarrow> c \<in> set (comments s) \<and> c_id c = i"
  unfolding findComment_def by (rule find_key)

subsection \<open>What the hooks change\<close>

lemma post_pre_save_same [simp]:
  "p_id (post_pre_save old now p) = p_id p"
  "title (post_pre_save old now p) = title p"
  "content (post_pre_save old now p) = content p"
  "status (post_pre_save old now p) = status p"
  "likes (post_pre_save old now p) = likes p"
  "likesCount (post_pre_save old now p) = likesCount p"
  "commentsCount (post_pre_save old now p) = commentsCount p"
  by (simp_all add: post_pre_save_def Let_def)

lemma post_pre_save_likes_same [simp]:
  "p_id (post_pre_save_likes old p) = p_id p"
  "title (post_pre_save_likes old p) = title p"
  "content (post_pre_save_likes old p) = content p"
  "status (post_pre_save_likes old p) = status p"
  "likes (post_pre_save_likes old p) = likes p"
  "commentsCount (post_pre_save_likes old p) = commentsCount p"
  "slug (post_pre_save_likes old p) = slug p"
  "publishedAt (post_pre_save_likes old p) = publishedAt p"
  by (simp_all add: post_pre_save_likes_def)

lemma likesCount_pre_save_likes:
  "likesCount (post_pre_save_likes old p) =
     (if isModified likes old p then length (likes p) else likesCount p)"
  by (simp add: post_pre_save_likes_def)

lemma publishedAt_pre_save:
  "publishedAt (post_pre_save old now p) =
     (if isModified status old p \<and> status p = ''Published'' \<and> publishedAt p = None
      then Some now else publishedAt p)"
  by (auto simp: post_pre_save_def Let_def isModified_def split: option.splits)

lemma slug_pre_save:
  "slug (post_pre_save old now p) =
     (if isModified title old p \<and> unsetOrEmpty (slug p) then Some (slugify (title p)) else slug p)"
  by (auto simp: post_pre_save_def Let_def isModified_def split: option.splits)

lemma comment_pre_save_same [simp]:
  "c_id (comment_pre_save old now c) = c_id c"
  "comment (comment_pre_save old now c) = comment c"
  "post (comment_pre_save old now c) = post c"
  "userId (comment_pre_save old now c) = userId c"
  "parentComment (comment_pre_save old now c) = parentComment c"
  "replies (comment_pre_save old now c) = replies c"
  "c_likes (comment_pre_save old now c) = c_likes c"
  "isDeleted (comment_pre_save old now c) = isDeleted c"
  "deletedAt (comment_pre_save old now c) = deletedAt c"
  "c_createdAt (comment_pre_save old now c) = c_createdAt c"
  by (simp_all add: comment_pre_save_def Let_def)

lemma c_likesCount_pre_save:
  "c_likesCount (comment_pre_save old now c) =
     (if isModified c_likes old c then length (c_likes c) else c_likesCount c)"
  by (simp add: comment_pre_save_def Let_def isModified_def split: option.splits)

lemma isEdited_pre_save:
  "isEdited (comment_pre_save old now c) = (if isModified comment old c \<and> old \<noteq> None then True else isEdited c)"
  "editedAt (comment_pre_save old now c) = (if isModified comment old c \<and> old \<noteq> None then Some now else editedAt c)"
  by (auto simp: comment_pre_save_def Let_def isModified_def split: option.splits)

subsection \<open>Writes keep the store consistent\<close>

lemma comments_write_post [simp]: "comments (write_post old p s) = comments s"
  by (simp add: write_post_def split: option.splits)

lemma countDocuments_write_post [simp]: "countDocuments j (write_post old p s) = countDocuments j s"
  by (simp add: countDocuments_def)

lemma store_ok_replace_post:
  assumes ok: "store_ok s" and f: "findPost i s = Some p0" and i: "p_id p' = i"
    and lc: "likesCount p' = length (likes p')" and cc: "commentsCount p' = commentsCount p0"
    and pub: "status p' = ''Published'' \<longrightarrow> publishedAt p' \<noteq> None"
    and val: "title p' \<noteq> [] \<and> length (title p') \<le> 200 \<and> 10 \<le> length (content p')"
  shows "store_ok (write_post (Some p0) p' s)"
proof -
  let ?s' = "write_post (Some p0) p' s"
  have p0: "p0 \<in> set (posts s)" "p_id p0 = i"
    using findPost_Some [OF f] by simp_all
  have ps: "posts ?s' = map (\<lambda>q. if p_id q = i then p' else q) (posts s)"
    by (simp add: write_post_def i)
  have ids: "map p_id (posts ?s') = map p_id (posts s)"
    unfolding ps using i by (rule map_key_replace)
  have mem: "\<And>q. q \<in> set (posts ?s') \<Longrightarrow> q = p' \<or> q \<in> set (posts s)"
    unfolding ps by auto
  have cc0: "commentsCount p0 = countDocuments i s"
    using ok p0 by (auto simp: store_ok_def counters_ok_def list_all_iff)
  have "ids_ok ?s'"
    using ok by (simp add: store_ok_def ids_ok_def ids)
  moreover have "refs_ok ?s'"
    using ok by (simp add: store_ok_def refs_ok_def findPost_None ids)
  moreover have "counters_ok ?s'"
    unfolding counters_ok_def list_all_iff
  proof
    fix q assume "q \<in> set (posts ?s')"
    then show "likesCount q = length (likes q) \<and> commentsCount q = countDocuments (p_id q) ?s'"
      using mem [of q] ok lc cc cc0 i
      by (auto simp: store_ok_def counters_ok_def list_all_iff)
  qed
  moreover have "comment_likes_ok ?s'"
    using ok by (simp add: store_ok_def comment_likes_ok_def)
  moreover have "published_ok ?s'"
    unfolding published_ok_def list_all_iff
  proof
    fix q assume "q \<in> set (posts ?s')"
    then show "status q = ''Published'' \<longrightarrow> publishedAt q \<noteq> None"
      using mem [of q] ok pub by (auto simp: store_ok_def published_ok_def list_all_iff)
  qed
  moreover have "valid_ok ?s'"
  proof -
    have "\<And>q. q \<in> set (posts ?s') \<Longrightarrow> title q \<noteq> [] \<and> length (title q) \<le> 200 \<and> 10 \<le> length (content q)"
      using mem ok val by (fastforce simp: store_ok_def valid_ok_def list_all_iff)
    then show ?thesis
      using ok by (simp add: store_ok_def valid_ok_def list_all_iff)
  qed
  ultimately show ?thesis
    by (simp add: store_ok_def)
qed

lemma no_comments_of_missing_post:
  "refs_ok s \<Longrightarrow> findPost i s = None \<Longrightarrow> countDocuments i s = 0"
  by (auto simp: refs_ok_def countDocuments_def list_all_iff filter_empty_conv)

lemma store_ok_insert_post:
  assumes ok: "store_ok s" and f: "findPost i s = None" and i: "p_id p' = i"
    and lc: "likesCount p' = length (likes p')" and cc: "commentsCount p' = 0"
    and pub: "status p' = ''Published'' \<longrightarrow> publishedAt p' \<noteq> None"
    and val: "title p' \<noteq> [] \<and> length (title p') \<le> 200 \<and> 10 \<le> length (content p')"
  shows "store_ok (write_post None p' s)"
proof -
  let ?s' = "write_post None p' s"
  have ps: "posts ?s' = posts s @ [p']"
    by (simp add: write_post_def)
  have cc0: "countDocuments i s = 0"
    using ok f by (simp add: store_ok_def no_comments_of_missing_post)
  have "ids_ok ?s'"
    using ok f i by (simp add: store_ok_def ids_ok_def ps findPost_None)
  moreover have "refs_ok ?s'"
    using ok by (auto simp: store_ok_def refs_ok_def findPost_None ps list_all_iff)
  moreover have "counters_ok ?s'"
    using ok lc cc cc0 i by (simp add: store_ok_def counters_ok_def ps)
  moreover have "comment_likes_ok ?s'"
    using ok by (simp add: store_ok_def comment_likes_ok_def)
  moreover have "published_ok ?s'"
    using ok pub by (simp add: store_ok_def published_ok_def ps)
  moreover have "valid_ok ?s'"
    using ok val by (simp add: store_ok_def valid_ok_def ps)
  ultimately show ?thesis
    by (simp add: store_ok_def)
qed

lemma store_ok_delete_post:
  assumes ok: "store_ok s"
  shows "store_ok (findByIdAndDelete_post i (deleteMany_comments i s))"
proof -
  let ?s' = "findByIdAndDelete_post i (deleteMany_comments i s)"
  have ps: "posts ?s' = filter (\<lambda>p. p_id p \<noteq> i) (posts s)"
    and cs: "comments ?s' = filter (\<lambda>c. post c \<noteq> i) (comments s)"
    by (simp_all add: findByIdAndDelete_post_def deleteMany_comments_def)
  have cnt: "\<And>j. j \<noteq> i \<Longrightarrow> countDocuments j ?s' = countDocuments j s"
    by (auto simp: countDocuments_def cs intro: arg_cong [where f = length] filter_cong)
  have "ids_ok ?s'"
    using ok by (simp add: store_ok_def ids_ok_def ps cs distinct_map_filter)
  moreover have "refs_ok ?s'"
    using ok by (auto simp: store_ok_def refs_ok_def findPost_None ps cs list_all_iff)
  moreover have "counters_ok ?s'"
    using ok by (auto simp: store_ok_def counters_ok_def ps list_all_iff cnt)
  moreover have "comment_likes_ok ?s'"
    using ok by (auto simp: store_ok_def comment_likes_ok_def cs list_all_iff)
  moreover have "published_ok ?s'"
    using ok by (auto simp: store_ok_def published_ok_def ps list_all_iff)
  moreover have "valid_ok ?s'"
    using ok by (auto simp: store_ok_def valid_ok_def ps cs list_all_iff)
  ultimately show ?thesis
    by (simp add: store_ok_def)
qed

lemma posts_comment_post_save:
  "posts (comment_post_save c s) =
     map (\<lambda>q. if p_id q = post c then q\<lparr>commentsCount := countDocuments (post c) s\<rparr> else q) (posts s)"
  and comments_comment_post_save [simp]: "comments (comment_post_save c s) = comments s"
  by (simp_all add: comment_post_save_def)

lemma countDocuments_comment_post_save [simp]:
  "countDocuments j (comment_post_save c s) = countDocuments j s"
  by (simp add: countDocuments_def)

lemma ids_comment_post_save [simp]:
  "map p_id (posts (comment_post_save c s)) = map p_id (posts s)"
  unfolding posts_comment_post_save by (rule map_key_same) simp

text \<open>The post-save hook of a comment, once the comments are consistent but for the count of its post.\<close>

lemma store_ok_comment_post_save:
  assumes ids: "ids_ok s" and refs: "refs_ok s" and cl: "comment_likes_ok s"
    and pub: "published_ok s" and val: "valid_ok s"
    and cnt: "\<And>q. q \<in> set (posts s) \<Longrightarrow>
                likesCount q = length (likes q) \<and>
                (p_id q \<noteq> post c \<longrightarrow> commentsCount q = countDocuments (p_id q) s)"
  shows "store_ok (comment_post_save c s)"
proof -
  let ?s' = "comment_post_save c s"
  have "ids_ok ?s'"
    using ids by (simp add: ids_ok_def)
  moreover have "refs_ok ?s'"
    using refs by (simp add: refs_ok_def findPost_None)
  moreover have "counters_ok ?s'"
    using cnt by (auto simp: counters_ok_def list_all_iff posts_comment_post_save)
  moreover have "comment_likes_ok ?s'"
    using cl by (simp add: comment_likes_ok_def)
  moreover have "published_ok ?s'"
    using pub by (auto simp: published_ok_def list_all_iff posts_comment_post_save)
  moreover have "valid_ok ?s'"
    using val by (auto simp: valid_ok_def list_all_iff posts_comment_post_save)
  ultimately show ?thesis
    by (simp add: store_ok_def)
qed

lemma store_ok_replace_comment:
  assumes ok: "store_ok s" and f: "findComment i s = Some c0" and i: "c_id c' = i"
    and po: "post c' = post c0" and lc: "c_likesCount c' = length (c_likes c')"
    and val: "validate_comment c'"
  shows "store_ok (comment_post_save c' (write_comment (Some c0) c' s))"
proof (rule store_ok_comment_post_save)
  let ?s1 = "write_comment (Some c0) c' s"
  have c0: "c0 \<in> set (comments s)" "c_id c0 = i"
    using findComment_Some [OF f] by simp_all
  have ps: "posts ?s1 = posts s"
    and cs: "comments ?s1 = map (\<lambda>d. if c_id d = c_id c0 then c' else d) (comments s)"
    by (simp_all add: write_comment_def i c0)
  have dist: "distinct (map c_id (comments s))"
    using ok by (simp add: store_ok_def ids_ok_def)
  have ids: "map c_id (comments ?s1) = map c_id (comments s)"
    unfolding cs by (rule map_key_replace) (simp add: i c0)
  have mem: "\<And>d. d \<in> set (comments ?s1) \<Longrightarrow> d = c' \<or> d \<in> set (comments s)"
    unfolding cs by auto
  show "ids_ok ?s1"
    using ok by (simp add: store_ok_def ids_ok_def ps ids)
  show "refs_ok ?s1"
    unfolding refs_ok_def list_all_iff
  proof
    fix d assume "d \<in> set (comments ?s1)"
    then show "findPost (post d) ?s1 \<noteq> None"
      using mem [of d] ok c0 po
      by (auto simp: store_ok_def refs_ok_def list_all_iff findPost_None ps)
  qed
  show "comment_likes_ok ?s1"
    unfolding comment_likes_ok_def list_all_iff
  proof
    fix d assume "d \<in> set (comments ?s1)"
    then show "c_likesCount d = length (c_likes d)"
      using mem [of d] ok lc by (auto simp: store_ok_def comment_likes_ok_def list_all_iff)
  qed
  show "published_ok ?s1"
    using ok by (simp add: store_ok_def published_ok_def ps)
  show "valid_ok ?s1"
  proof -
    have "\<And>d. d \<in> set (comments ?s1) \<Longrightarrow> validate_comment d"
      using mem ok val by (fastforce simp: store_ok_def valid_ok_def list_all_iff)
    then show ?thesis
      using ok by (simp add: store_ok_def valid_ok_def list_all_iff ps)
  qed
  fix q assume q: "q \<in> set (posts ?s1)"
  have "countDocuments (p_id q) ?s1 = countDocuments (p_id q) s" if "p_id q \<noteq> post c'"
  proof -
    let ?P = "\<lambda>c. post c = p_id q \<and> \<not> isDeleted c"
    have "length (filter ?P (map (\<lambda>d. if c_id d = c_id c0 then c' else d) (comments s)))
            + (if ?P c0 then 1 else 0)
        = length (filter ?P (comments s)) + (if ?P c' then 1 else 0)"
      using dist c0(1) by (rule count_replace) (simp add: i c0)
    with that po show ?thesis
      by (simp add: countDocuments_def cs)
  qed
  with q ok show "likesCount q = length (likes q) \<and>
      (p_id q \<noteq> post c' \<longrightarrow> commentsCount q = countDocuments (p_id q) ?s1)"
    by (auto simp: store_ok_def counters_ok_def list_all_iff ps)
qed

lemma store_ok_insert_comment:
  assumes ok: "store_ok s" and f: "findComment i s = None" and i: "c_id c' = i"
    and po: "findPost (post c') s \<noteq> None" and lc: "c_likesCount c' = length (c_likes c')"
    and val: "validate_comment c'"
  shows "store_ok (comment_post_save c' (write_comment None c' s))"
proof (rule store_ok_comment_post_save)
  let ?s1 = "write_comment None c' s"
  have ps: "posts ?s1 = posts s" and cs: "comments ?s1 = comments s @ [c']"
    by (simp_all add: write_comment_def)
  show "ids_ok ?s1"
    using ok f i by (simp add: store_ok_def ids_ok_def ps cs findComment_None)
  show "refs_ok ?s1"
    using ok po by (simp add: store_ok_def refs_ok_def findPost_None ps cs)
  show "comment_likes_ok ?s1"
    using ok lc by (simp add: store_ok_def comment_likes_ok_def cs)
  show "published_ok ?s1"
    using ok by (simp add: store_ok_def published_ok_def ps)
  show "valid_ok ?s1"
    using ok val by (simp add: store_ok_def valid_ok_def ps cs)
  fix q assume q: "q \<in> set (posts ?s1)"
  have "countDocuments (p_id q) ?s1 = countDocuments (p_id q) s" if "p_id q \<noteq> post c'"
    using that by (auto simp: countDocuments_def cs)
  with q ok show "likesCount q = length (likes q) \<and>
      (p_id q \<noteq> post c' \<longrightarrow> commentsCount q = countDocuments (p_id q) ?s1)"
    by (auto simp: store_ok_def counters_ok_def list_all_iff ps)
qed

lemma store_ok_push_reply:
  assumes ok: "store_ok s"
  shows "store_ok (push_reply parent i s)"
proof -
  let ?f = "\<lambda>d. if c_id d = parent then d\<lparr>replies := replies d @ [i]\<rparr> else d"
  let ?s' = "push_reply parent i s"
  have ps: "posts ?s' = posts s" and cs: "comments ?s' = map ?f (comments s)"
    by (simp_all add: push_reply_def)
  have ids: "map c_id (comments ?s') = map c_id (comments s)"
    unfolding cs by (rule map_key_same) simp
  have cnt: "\<And>j. countDocuments j ?s' = countDocuments j s"
    unfolding countDocuments_def cs by (rule count_map_same) simp
  have "ids_ok ?s'"
    using ok by (simp add: store_ok_def ids_ok_def ps ids)
  moreover have "refs_ok ?s'"
    using ok unfolding store_ok_def refs_ok_def cs findPost_None ps
    by (subst list_all_map_same) simp_all
  moreover have "counters_ok ?s'"
    using ok by (simp add: store_ok_def counters_ok_def ps cnt)
  moreover have "comment_likes_ok ?s'"
    using ok unfolding store_ok_def comment_likes_ok_def cs
    by (subst list_all_map_same) simp_all
  moreover have "published_ok ?s'"
    using ok by (simp add: store_ok_def published_ok_def ps)
  moreover have "valid_ok ?s'"
    using ok unfolding store_ok_def valid_ok_def cs ps
    by (subst list_all_map_same) (simp_all add: validate_comment_def)
  ultimately show ?thesis
    by (simp add: store_ok_def)
qed

subsection \<open>Handlers keep the store consistent\<close>

lemma post_save_Inr:
  "post_save old now p s = Inr s' \<Longrightarrow>
     validate_post old p \<and>
     (old = None \<longrightarrow> findPost (p_id p) s = None) \<and>
     s' = write_post old (post_pre_save_likes old (post_pre_save old now p)) s"
  by (auto simp: post_save_def Let_def split: if_splits)

lemma comment_save_Inr:
  "comment_save old now c s = Inr s' \<Longrightarrow>
     validate_comment c \<and>
     (old = None \<longrightarrow> findComment (c_id c) s = None) \<and>
     s' = comment_post_save (comment_pre_save old now c) (write_comment old (comment_pre_save old now c) s)"
  by (auto simp: comment_save_def Let_def split: if_splits)

lemma post_save_existing_ok:
  assumes ok: "store_ok s" and f: "findPost i s = Some p0" and i: "p_id p = i"
    and lc: "likesCount p = likesCount p0" and cc: "commentsCount p = commentsCount p0"
    and pa: "publishedAt p = publishedAt p0"
    and sv: "post_save (Some p0) now p s = Inr s'"
  shows "store_ok s'"
proof -
  let ?p' = "post_pre_save_likes (Some p0) (post_pre_save (Some p0) now p)"
  from post_save_Inr [OF sv] have v: "validate_post (Some p0) p" and s': "s' = write_post (Some p0) ?p' s"
    by simp_all
  have p0: "p0 \<in> set (posts s)"
    using findPost_Some [OF f] by simp
  with ok have lc0: "likesCount p0 = length (likes p0)"
    and pub0: "status p0 = ''Published'' \<longrightarrow> publishedAt p0 \<noteq> None"
    by (auto simp: store_ok_def counters_ok_def published_ok_def list_all_iff)
  have "likesCount ?p' = length (likes ?p')"
    using lc lc0 by (simp add: likesCount_pre_save_likes isModified_def)
  moreover have "commentsCount ?p' = commentsCount p0"
    using cc by simp
  moreover have "status ?p' = ''Published'' \<longrightarrow> publishedAt ?p' \<noteq> None"
    using pa pub0 by (auto simp: publishedAt_pre_save isModified_def)
  moreover have "title ?p' \<noteq> [] \<and> length (title ?p') \<le> 200 \<and> 10 \<le> length (content ?p')"
    using v by (simp add: validate_post_def)
  ultimately show ?thesis
    unfolding s' using ok f i by (intro store_ok_replace_post) simp_all
qed

lemma apply_body_same [simp]:
  "p_id (apply_body b p) = p_id p"
  "author (apply_body b p) = author p"
  "likes (apply_body b p) = likes p"
  "likesCount (apply_body b p) = likesCount p"
  "commentsCount (apply_body b p) = commentsCount p"
  "publishedAt (apply_body b p) = publishedAt p"
  "slug (apply_body b p) = slug p"
  "excerpt (apply_body b p) = excerpt p"
  "views (apply_body b p) = views p"
  by (simp_all add: apply_body_def Let_def split: option.splits)

lemma new_post_fields [simp]:
  "p_id (new_post u i b) = i"
  "likes (new_post u i b) = []"
  "likesCount (new_post u i b) = 0"
  "commentsCount (new_post u i b) = 0"
  "publishedAt (new_post u i b) = None"
  "slug (new_post u i b) = None"
  "title (new_post u i b) = trim (b_title b)"
  "status (new_post u i b) = orElse (b_status b) ''Draft''"
  by (simp_all add: new_post_def)

lemma new_comment_fields [simp]:
  "c_id (new_comment u i now pid b parent) = i"
  "comment (new_comment u i now pid b parent) = trim b"
  "post (new_comment u i now pid b parent) = pid"
  "parentComment (new_comment u i now pid b parent) = parent"
  "c_likes (new_comment u i now pid b parent) = []"
  "c_likesCount (new_comment u i now pid b parent) = 0"
  "isDeleted (new_comment u i now pid b parent) = False"
  by (simp_all add: new_comment_def)

lemma create_post_ok:
  assumes ok: "store_ok s" and c: "create_post u i now b s = Inr s'"
  shows "store_ok s'"
proof -
  let ?p = "new_post u i b"
  let ?p' = "post_pre_save_likes None (post_pre_save None now ?p)"
  have sv: "post_save None now ?p s = Inr s'"
    using c by (simp add: create_post_def split: if_splits)
  from post_save_Inr [OF sv] have v: "validate_post None ?p" and f: "findPost i s = None"
    and s': "s' = write_post None ?p' s"
    by simp_all
  have "likesCount ?p' = length (likes ?p')"
    by (simp add: likesCount_pre_save_likes)
  moreover have "commentsCount ?p' = 0"
    by simp
  moreover have "status ?p' = ''Published'' \<longrightarrow> publishedAt ?p' \<noteq> None"
    by (simp add: publishedAt_pre_save isModified_def)
  moreover have "title ?p' \<noteq> [] \<and> length (title ?p') \<le> 200 \<and> 10 \<le> length (content ?p')"
    using v by (simp add: validate_post_def)
  ultimately show ?thesis
    unfolding s' using ok f by (intro store_ok_insert_post) simp_all
qed

lemma update_post_ok:
  assumes ok: "store_ok s" and c: "update_post u i now b s = Inr s'"
  shows "store_ok s'"
proof -
  obtain p0 where f: "findPost i s = Some p0" and sv: "post_save (Some p0) now (apply_body b p0) s = Inr s'"
    using c by (auto simp: update_post_def split: option.splits if_splits)
  have "p_id p0 = i"
    using findPost_Some [OF f] by simp
  with ok f sv show ?thesis
    by (intro post_save_existing_ok [OF ok f _ _ _ _ sv]) simp_all
qed

lemma like_post_ok:
  assumes ok: "store_ok s" and c: "like_post u i now s = Inr s'"
  shows "store_ok s'"
proof -
  obtain p0 where f: "findPost i s = Some p0"
    and sv: "post_save (Some p0) now (p0\<lparr>likes := toggleLikes (u_id u) now (likes p0)\<rparr>) s = Inr s'"
    using c by (auto simp: like_post_def split: option.splits)
  have "p_id p0 = i"
    using findPost_Some [OF f] by simp
  then show ?thesis
    by (intro post_save_existing_ok [OF ok f _ _ _ _ sv]) simp_all
qed

lemma get_post_ok:
  assumes ok: "store_ok s" and c: "get_post v i now s = Inr s'"
  shows "store_ok s'"
proof -
  obtain p0 where f: "findPost i s = Some p0"
    and sv: "post_save (Some p0) now (p0\<lparr>views := views p0 + 1\<rparr>) s = Inr s' \<or> s' = s"
    using c by (auto simp: get_post_def split: option.splits if_splits)
  have i: "p_id p0 = i"
    using findPost_Some [OF f] by simp
  from sv show ?thesis
  proof
    assume "post_save (Some p0) now (p0\<lparr>views := views p0 + 1\<rparr>) s = Inr s'"
    then show ?thesis
      using i by (intro post_save_existing_ok [OF ok f]) simp_all
  next
    assume "s' = s"
    with ok show ?thesis by simp
  qed
qed

lemma delete_post_ok:
  assumes ok: "store_ok s" and c: "delete_post u i s = Inr s'"
  shows "store_ok s'"
proof -
  obtain p0 where f: "findPost i s = Some p0"
    and s': "s' = findByIdAndDelete_post i (deleteMany_comments (p_id p0) s)"
    using c by (auto simp: delete_post_def split: option.splits if_splits)
  have "p_id p0 = i"
    using findPost_Some [OF f] by simp
  with s' ok show ?thesis
    by (simp add: store_ok_delete_post)
qed

lemma comment_save_existing_ok:
  assumes ok: "store_ok s" and f: "findComment i s = Some c0" and i: "c_id c = i"
    and po: "post c = post c0" and lc: "c_likesCount c = c_likesCount c0"
    and sv: "comment_save (Some c0) now c s = Inr s'"
  shows "store_ok s'"
proof -
  let ?c' = "comment_pre_save (Some c0) now c"
  from comment_save_Inr [OF sv] have v: "validate_comment c"
    and s': "s' = comment_post_save ?c' (write_comment (Some c0) ?c' s)"
    by simp_all
  have "c0 \<in> set (comments s)"
    using findComment_Some [OF f] by simp
  with ok have lc0: "c_likesCount c0 = length (c_likes c0)"
    by (auto simp: store_ok_def comment_likes_ok_def list_all_iff)
  have "c_likesCount ?c' = length (c_likes ?c')"
    using lc lc0 by (simp add: c_likesCount_pre_save isModified_def)
  moreover have "validate_comment ?c'"
    using v by (simp add: validate_comment_def)
  ultimately show ?thesis
    unfolding s' using ok f i po by (intro store_ok_replace_comment) simp_all
qed

lemma create_comment_Inr:
  "create_comment u i now pid b parent s = Inr s' \<Longrightarrow>
     \<not> blank b \<and> (\<exists>p. findPost pid s = Some p \<and> status p = ''Published'') \<and>
     \<not> invalid_parent parent pid s \<and>
     (\<exists>s1. comment_save None now (new_comment u i now pid b parent) s = Inr s1 \<and>
        s' = (case parent of None \<Rightarrow> s1 | Some pc \<Rightarrow> push_reply pc i s1))"
  by (simp add: create_comment_def split: if_splits option.splits sum.splits)

lemma create_comment_ok:
  assumes ok: "store_ok s" and c: "create_comment u i now pid b parent s = Inr s'"
  shows "store_ok s'"
proof -
  let ?c = "new_comment u i now pid b parent"
  let ?c' = "comment_pre_save None now ?c"
  from create_comment_Inr [OF c] obtain s1 where sv: "comment_save None now ?c s = Inr s1"
    and fp: "findPost pid s \<noteq> None"
    and s': "s' = (case parent of None \<Rightarrow> s1 | Some pc \<Rightarrow> push_reply pc i s1)"
    by auto
  from comment_save_Inr [OF sv] have v: "validate_comment ?c" and f: "findComment i s = None"
    and s1: "s1 = comment_post_save ?c' (write_comment None ?c' s)"
    by simp_all
  have "c_likesCount ?c' = length (c_likes ?c')"
    by (simp add: c_likesCount_pre_save)
  moreover have "validate_comment ?c'"
    using v by (simp add: validate_comment_def)
  ultimately have "store_ok s1"
    unfolding s1 using ok f fp by (intro store_ok_insert_comment) simp_all
  then show ?thesis
    unfolding s' by (simp add: store_ok_push_reply split: option.splits)
qed

lemma edit_comment_ok:
  assumes ok: "store_ok s" and c: "edit_comment u i now b s = Inr s'"
  shows "store_ok s'"
proof -
  obtain c0 where f: "findComment i s = Some c0"
    and sv: "comment_save (Some c0) now (c0\<lparr>comment := trim b\<rparr>) s = Inr s'"
    using c by (auto simp: edit_comment_def split: option.splits if_splits)
  have "c_id c0 = i"
    using findComment_Some [OF f] by simp
  then show ?thesis
    by (intro comment_save_existing_ok [OF ok f _ _ _ sv]) simp_all
qed

lemma delete_comment_ok:
  assumes ok: "store_ok s" and c: "delete_comment u i now saved s = Inr s'"
  shows "store_ok s'"
proof -
  obtain c0 where f: "findComment i s = Some c0"
    and sv: "comment_save (Some c0) saved
               (c0\<lparr>isDeleted := True, deletedAt := Some now, comment := deletedText\<rparr>) s = Inr s'"
    using c by (auto simp: delete_comment_def split: option.splits if_splits)
  have "c_id c0 = i"
    using findComment_Some [OF f] by simp
  then show ?thesis
    by (intro comment_save_existing_ok [OF ok f _ _ _ sv]) simp_all
qed

lemma like_comment_ok:
  assumes ok: "store_ok s" and c: "like_comment u i now s = Inr s'"
  shows "store_ok s'"
proof -
  obtain c0 where f: "findComment i s = Some c0"
    and sv: "comment_save (Some c0) now (c0\<lparr>c_likes := toggleLikes (u_id u) now (c_likes c0)\<rparr>) s = Inr s'"
    using c by (auto simp: like_comment_def split: option.splits if_splits)
  have "c_id c0 = i"
    using findComment_Some [OF f] by simp
  then show ?thesis
    by (intro comment_save_existing_ok [OF ok f _ _ _ sv]) simp_all
qed

lemma exec_ok: "store_ok s \<Longrightarrow> exec r s = Inr s' \<Longrightarrow> store_ok s'"
  by (cases r)
    (auto intro: create_post_ok update_post_ok delete_post_ok like_post_ok get_post_ok
       create_comment_ok edit_comment_ok delete_comment_ok like_comment_ok)

lemma store_ok_empty: "store_ok empty_store"
  by (simp add: store_ok_def empty_store_def ids_ok_def refs_ok_def counters_ok_def
      comment_likes_ok_def published_ok_def valid_ok_def)

lemma run_ok: "store_ok s \<Longrightarrow> store_ok (run rs s)"
proof (induction rs arbitrary: s)
  case Nil
  then show ?case by simp
next
  case (Cons r rs)
  show ?case
  proof (cases "exec r s")
    case (Inl e)
    with Cons show ?thesis by simp
  next
    case (Inr s')
    with Cons.prems have "store_ok s'" by (auto intro: exec_ok)
    with Cons.IH Inr show ?thesis by simp
  qed
qed

lemma reachable_ok: "store_ok (run rs empty_store)"
  by (rule run_ok) (rule store_ok_empty)

subsection \<open>Looking a document up after a write\<close>

lemma find_filter_key:
  "find (\<lambda>q. k q = i) (filter (\<lambda>q. k q \<noteq> j) xs) = (if i = j then None else find (\<lambda>q. k q = i) xs)"
  by (induction xs) auto

lemma find_map_same:
  "(\<And>x. k (f x) = k x) \<Longrightarrow> find (\<lambda>q. k q = i) (map f xs) = map_option f (find (\<lambda>q. k q = i) xs)"
  by (induction xs) auto

lemma findPost_replace:
  "findPost j s = Some p0 \<Longrightarrow> p_id p' = j \<Longrightarrow>
   findPost i (write_post (Some p0) p' s) = (if i = j then Some p' else findPost i s)"
  by (simp add: findPost_def write_post_def find_replace_same find_replace_other)

lemma findPost_insert:
  "findPost (p_id p') s = None \<Longrightarrow>
   findPost i (write_post None p' s) = (if i = p_id p' then Some p' else findPost i s)"
  by (simp add: findPost_def write_post_def find_append_new find_append_old)

lemma findPost_delete:
  "findPost i (findByIdAndDelete_post j (deleteMany_comments k s)) =
     (if i = j then None else findPost i s)"
  by (simp add: findPost_def findByIdAndDelete_post_def deleteMany_comments_def find_filter_key)

lemma findPost_comment_post_save:
  "findPost i (comment_post_save c s) =
     map_option (\<lambda>q. if p_id q = post c then q\<lparr>commentsCount := countDocuments (post c) s\<rparr> else q)
       (findPost i s)"
  unfolding findPost_def posts_comment_post_save by (rule find_map_same) simp

lemma findPost_write_comment [simp]: "findPost i (write_comment old c s) = findPost i s"
  by (simp add: findPost_def write_comment_def split: option.splits)

lemma findPost_push_reply [simp]: "findPost i (push_reply parent j s) = findPost i s"
  by (simp add: findPost_def push_reply_def)

lemma findComment_write_post [simp]: "findComment i (write_post old p s) = findComment i s"
  by (simp add: findComment_def)

lemma findComment_comment_post_save [simp]: "findComment i (comment_post_save c s) = findComment i s"
  by (simp add: findComment_def)

lemma findComment_replace:
  "findComment j s = Some c0 \<Longrightarrow> c_id c' = j \<Longrightarrow>
   findComment i (write_comment (Some c0) c' s) = (if i = j then Some c' else findComment i s)"
  by (simp add: findComment_def write_comment_def find_replace_same find_replace_other)

lemma findComment_insert:
  "findComment (c_id c') s = None \<Longrightarrow>
   findComment i (write_comment None c' s) = (if i = c_id c' then Some c' else findComment i s)"
  by (simp add: findComment_def write_comment_def find_append_new find_append_old)

lemma findComment_push_reply:
  "findComment i (push_reply parent j s) =
     map_option (\<lambda>d. if c_id d = parent then d\<lparr>replies := replies d @ [j]\<rparr> else d) (findComment i s)"
  unfolding findComment_def push_reply_def by (simp add: find_map_same)

subsection \<open>What one request does to a post\<close>

lemma same_derived_refl [simp]: "same_derived p p"
  by (simp add: same_derived_def)

lemma post_save_existing_find:
  assumes sv: "post_save (Some p0) now p s = Inr s'" and f: "findPost j s = Some p0" and j: "p_id p = j"
  shows "findPost i s' =
     (if i = j then Some (post_pre_save_likes (Some p0) (post_pre_save (Some p0) now p))
      else findPost i s)"
  using post_save_Inr [OF sv] f j by (simp add: findPost_replace)

lemma comment_save_findPost:
  assumes sv: "comment_save old now c s = Inr s'" and f: "findPost i s = Some p" and f': "findPost i s' = Some p'"
  shows "same_derived p p'"
  using comment_save_Inr [OF sv] f f'
  by (auto simp: findPost_comment_post_save same_derived_def)

lemma update_post_Inr:
  "update_post u j now b s = Inr s' \<Longrightarrow>
     \<exists>p0. findPost j s = Some p0 \<and> ownerOrAdmin u (author p0) \<and>
          post_save (Some p0) now (apply_body b p0) s = Inr s'"
  by (simp add: update_post_def split: option.splits if_splits)

lemma like_post_Inr:
  "like_post u j now s = Inr s' \<Longrightarrow>
     \<exists>p0. findPost j s = Some p0 \<and>
          post_save (Some p0) now (p0\<lparr>likes := toggleLikes (u_id u) now (likes p0)\<rparr>) s = Inr s'"
  by (simp add: like_post_def split: option.splits)

lemma get_post_Inr:
  "get_post v j now s = Inr s' \<Longrightarrow>
     \<exists>p0. findPost j s = Some p0 \<and>
          (post_save (Some p0) now (p0\<lparr>views := views p0 + 1\<rparr>) s = Inr s' \<or> s' = s)"
  by (auto simp: get_post_def split: option.splits if_splits)

lemma delete_post_Inr:
  "delete_post u j s = Inr s' \<Longrightarrow>
     \<exists>p0. findPost j s = Some p0 \<and> ownerOrAdmin u (author p0) \<and>
          s' = findByIdAndDelete_post j (deleteMany_comments j s)"
proof -
  assume a: "delete_post u j s = Inr s'"
  then obtain p0 where f: "findPost j s = Some p0" and o: "ownerOrAdmin u (author p0)"
    and s': "s' = findByIdAndDelete_post j (deleteMany_comments (p_id p0) s)"
    by (auto simp: delete_post_def split: option.splits if_splits)
  from findPost_Some [OF f] have "p_id p0 = j" by simp
  with f o s' show ?thesis by simp
qed

lemma create_post_Inr:
  "create_post u j now b s = Inr s' \<Longrightarrow>
     b_title b \<noteq> [] \<and> b_content b \<noteq> [] \<and> post_save None now (new_post u j b) s = Inr s'"
  by (simp add: create_post_def split: if_splits)

lemma edit_comment_Inr:
  "edit_comment u j now b s = Inr s' \<Longrightarrow>
     \<exists>c0. findComment j s = Some c0 \<and> \<not> blank b \<and> \<not> isDeleted c0 \<and> userId c0 = u_id u \<and>
          comment_save (Some c0) now (c0\<lparr>comment := trim b\<rparr>) s = Inr s'"
  by (simp add: edit_comment_def split: option.splits if_splits)

lemma delete_comment_Inr:
  "delete_comment u j now saved s = Inr s' \<Longrightarrow>
     \<exists>c0. findComment j s = Some c0 \<and> ownerOrAdmin u (userId c0) \<and>
          comment_save (Some c0) saved
            (c0\<lparr>isDeleted := True, deletedAt := Some now, comment := deletedText\<rparr>) s = Inr s'"
  by (simp add: delete_comment_def split: option.splits if_splits)

lemma like_comment_Inr:
  "like_comment u j now s = Inr s' \<Longrightarrow>
     \<exists>c0. findComment j s = Some c0 \<and> \<not> isDeleted c0 \<and>
          comment_save (Some c0) now (c0\<lparr>c_likes := toggleLikes (u_id u) now (c_likes c0)\<rparr>) s = Inr s'"
  by (simp add: like_comment_def split: option.splits if_splits)

lemma exec_post_step:
  assumes e: "exec r s = Inr s'" and f: "findPost i s = Some p" and f': "findPost i s' = Some p'"
  shows "(\<exists>u now b. r = UpdatePost u i now b \<and>
            p' = post_pre_save_likes (Some p) (post_pre_save (Some p) now (apply_body b p)))
         \<or> same_derived p p'"
proof (cases r)
  case (CreatePost u j now b)
  with e have sv: "post_save None now (new_post u j b) s = Inr s'"
    by (simp add: create_post_Inr)
  from post_save_Inr [OF sv] f f' have "p' = p"
    by (auto simp: findPost_insert split: if_splits)
  then show ?thesis by simp
next
  case (UpdatePost u j now b)
  with e obtain p0 where p0: "findPost j s = Some p0"
    and sv: "post_save (Some p0) now (apply_body b p0) s = Inr s'"
    by (auto dest: update_post_Inr)
  from findPost_Some [OF p0] have "p_id p0 = j" by simp
  with post_save_existing_find [OF sv p0, of i] f f' p0 UpdatePost show ?thesis
    by (auto split: if_splits)
next
  case (DeletePost u j)
  with e f f' have "p' = p"
    by (auto dest!: delete_post_Inr simp: findPost_delete split: if_splits)
  then show ?thesis by simp
next
  case (LikePost u j now)
  with e obtain p0 where p0: "findPost j s = Some p0"
    and sv: "post_save (Some p0) now (p0\<lparr>likes := toggleLikes (u_id u) now (likes p0)\<rparr>) s = Inr s'"
    by (auto dest: like_post_Inr)
  from findPost_Some [OF p0] have "p_id p0 = j" by simp
  with post_save_existing_find [OF sv p0, of i] f f' p0 show ?thesis
    by (auto simp: same_derived_def slug_pre_save publishedAt_pre_save isModified_def split: if_splits)
next
  case (GetPost v j now)
  with e obtain p0 where p0: "findPost j s = Some p0"
    and sv: "post_save (Some p0) now (p0\<lparr>views := views p0 + 1\<rparr>) s = Inr s' \<or> s' = s"
    by (auto dest: get_post_Inr)
  from findPost_Some [OF p0] have j: "p_id p0 = j" by simp
  from sv show ?thesis
  proof
    assume sv': "post_save (Some p0) now (p0\<lparr>views := views p0 + 1\<rparr>) s = Inr s'"
    from post_save_existing_find [OF sv' p0, of i] j f f' p0 show ?thesis
      by (auto simp: same_derived_def slug_pre_save publishedAt_pre_save isModified_def split: if_splits)
  next
    assume "s' = s"
    with f f' show ?thesis by simp
  qed
next
  case (CreateComment u j now pid b parent)
  with e obtain s1 where sv: "comment_save None now (new_comment u j now pid b parent) s = Inr s1"
    and s': "s' = (case parent of None \<Rightarrow> s1 | Some pc \<Rightarrow> push_reply pc j s1)"
    by (auto dest: create_comment_Inr)
  from s' f' have "findPost i s1 = Some p'"
    by (simp split: option.splits)
  with comment_save_findPost [OF sv f] show ?thesis by simp
next
  case (EditComment u j now b)
  with e f f' show ?thesis
    by (auto dest!: edit_comment_Inr dest: comment_save_findPost)
next
  case (DeleteComment u j now saved)
  with e f f' show ?thesis
    by (auto dest!: delete_comment_Inr dest: comment_save_findPost)
next
  case (LikeComment u j now)
  with e f f' show ?thesis
    by (auto dest!: like_comment_Inr dest: comment_save_findPost)
qed

lemma exec_new_post:
  assumes e: "exec r s = Inr s'" and f: "findPost i s = None" and f': "findPost i s' = Some p'"
  shows "\<exists>u now b. r = CreatePost u i now b \<and>
           p' = post_pre_save_likes None (post_pre_save None now (new_post u i b))"
proof (cases r)
  case (CreatePost u j now b)
  with e have sv: "post_save None now (new_post u j b) s = Inr s'"
    by (simp add: create_post_Inr)
  from post_save_Inr [OF sv] f f' CreatePost show ?thesis
    by (auto simp: findPost_insert split: if_splits)
next
  case (UpdatePost u j now b)
  with e obtain p0 where p0: "findPost j s = Some p0"
    and sv: "post_save (Some p0) now (apply_body b p0) s = Inr s'"
    by (auto dest: update_post_Inr)
  from findPost_Some [OF p0] have "p_id p0 = j" by simp
  with post_save_existing_find [OF sv p0, of i] f f' p0 show ?thesis
    by (auto split: if_splits)
next
  case (DeletePost u j)
  with e f f' show ?thesis
    by (auto dest!: delete_post_Inr simp: findPost_delete split: if_splits)
next
  case (LikePost u j now)
  with e obtain p0 where p0: "findPost j s = Some p0"
    and sv: "post_save (Some p0) now (p0\<lparr>likes := toggleLikes (u_id u) now (likes p0)\<rparr>) s = Inr s'"
    by (auto dest: like_post_Inr)
  from findPost_Some [OF p0] have "p_id p0 = j" by simp
  with post_save_existing_find [OF sv p0, of i] f f' p0 show ?thesis
    by (auto split: if_splits)
next
  case (GetPost v j now)
  with e obtain p0 where p0: "findPost j s = Some p0"
    and sv: "post_save (Some p0) now (p0\<lparr>views := views p0 + 1\<rparr>) s = Inr s' \<or> s' = s"
    by (auto dest: get_post_Inr)
  from findPost_Some [OF p0] have j: "p_id p0 = j" by simp
  from sv show ?thesis
  proof
    assume sv': "post_save (Some p0) now (p0\<lparr>views := views p0 + 1\<rparr>) s = Inr s'"
    from post_save_existing_find [OF sv' p0, of i] j f f' p0 show ?thesis
      by (auto split: if_splits)
  next
    assume "s' = s"
    with f f' show ?thesis by simp
  qed
next
  case (CreateComment u j now pid b parent)
  with e obtain s1 where sv: "comment_save None now (new_comment u j now pid b parent) s = Inr s1"
    and s': "s' = (case parent of None \<Rightarrow> s1 | Some pc \<Rightarrow> push_reply pc j s1)"
    by (auto dest: create_comment_Inr)
  from s' f' have "findPost i s1 = Some p'"
    by (simp split: option.splits)
  with comment_save_Inr [OF sv] f show ?thesis
    by (simp add: findPost_comment_post_save)
next
  case (EditComment u j now b)
  with e f f' show ?thesis
    by (auto dest!: edit_comment_Inr comment_save_Inr simp: findPost_comment_post_save)
next
  case (DeleteComment u j now saved)
  with e f f' show ?thesis
    by (auto dest!: delete_comment_Inr comment_save_Inr simp: findPost_comment_post_save)
next
  case (LikeComment u j now)
  with e f f' show ?thesis
    by (auto dest!: like_comment_Inr comment_save_Inr simp: findPost_comment_post_save)
qed

subsection \<open>The like toggle and the likes of a post\<close>

lemma toggleLikes_absent:
  assumes "uid \<notin> user ` set ls"
  shows "toggleLikes uid now ls = ls @ [\<lparr>user = uid, createdAt = now\<rparr>]"
proof -
  have "find (\<lambda>l. user l = uid) ls = None"
    using assms by (simp add: find_None_key)
  then show ?thesis
    by (simp add: toggleLikes_def)
qed

lemma toggleLikes_present:
  assumes "uid \<in> user ` set ls"
  shows "toggleLikes uid now ls = filter (\<lambda>l. user l \<noteq> uid) ls"
proof -
  have "find (\<lambda>l. user l = uid) ls \<noteq> None"
    using assms by (simp add: find_None_key)
  then show ?thesis
    by (auto simp: toggleLikes_def)
qed

lemma filter_absent: "uid \<notin> user ` set ls \<Longrightarrow> filter (\<lambda>l. user l \<noteq> uid) ls = ls"
  by (induction ls) auto

lemma toggleLikes_twice:
  assumes "uid \<notin> user ` set ls"
  shows "toggleLikes uid t2 (toggleLikes uid t1 ls) = ls"
proof -
  have "uid \<in> user ` set (ls @ [\<lparr>user = uid, createdAt = t1\<rparr>])"
    by simp
  then have "toggleLikes uid t2 (ls @ [\<lparr>user = uid, createdAt = t1\<rparr>])
               = filter (\<lambda>l. user l \<noteq> uid) (ls @ [\<lparr>user = uid, createdAt = t1\<rparr>])"
    by (rule toggleLikes_present)
  with assms show ?thesis
    by (simp add: toggleLikes_absent filter_absent)
qed

lemma toggleLikes_changes: "toggleLikes uid now ls \<noteq> ls"
proof (cases "uid \<in> user ` set ls")
  case True
  then obtain x where "x \<in> set ls" "\<not> user x \<noteq> uid"
    by auto
  then have "length (filter (\<lambda>l. user l \<noteq> uid) ls) < length ls"
    by (rule length_filter_less)
  with True show ?thesis
    by (auto simp: toggleLikes_present)
next
  case False
  then show ?thesis
    by (simp add: toggleLikes_absent)
qed

text \<open>The save of a post of which only the likes have changed.\<close>

lemma post_save_likes:
  assumes v: "title p \<noteq> [] \<and> length (title p) \<le> 200 \<and> 10 \<le> length (content p)"
    and n: "ls \<noteq> likes p"
  shows "post_save (Some p) now (p\<lparr>likes := ls\<rparr>) s =
           Inr (write_post (Some p) (p\<lparr>likes := ls, likesCount := length ls\<rparr>) s)"
proof -
  have "post_pre_save (Some p) now (p\<lparr>likes := ls\<rparr>) = p\<lparr>likes := ls\<rparr>"
    by (simp add: post_pre_save_def isModified_def Let_def)
  moreover have "post_pre_save_likes (Some p) (p\<lparr>likes := ls\<rparr>) = p\<lparr>likes := ls, likesCount := length ls\<rparr>"
    using n by (simp add: post_pre_save_likes_def isModified_def)
  moreover have "validate_post (Some p) (p\<lparr>likes := ls\<rparr>)"
    using v by (auto simp: validate_post_def isModified_def)
  ultimately show ?thesis
    by (simp add: post_save_def Let_def isModified_def)
qed

lemma comment_save_likes:
  assumes v: "validate_comment c" and n: "ls \<noteq> c_likes c"
  shows "comment_save (Some c) now (c\<lparr>c_likes := ls\<rparr>) s =
           Inr (comment_post_save (c\<lparr>c_likes := ls, c_likesCount := length ls\<rparr>)
                  (write_comment (Some c) (c\<lparr>c_likes := ls, c_likesCount := length ls\<rparr>) s))"
proof -
  have "comment_pre_save (Some c) now (c\<lparr>c_likes := ls\<rparr>) = c\<lparr>c_likes := ls, c_likesCount := length ls\<rparr>"
    using n by (simp add: comment_pre_save_def isModified_def Let_def)
  moreover have "validate_comment (c\<lparr>c_likes := ls\<rparr>)"
    using v by (simp add: validate_comment_def)
  ultimately show ?thesis
    by (simp add: comment_save_def Let_def)
qed

lemma like_post_step:
  assumes f: "findPost i s = Some p"
    and v: "title p \<noteq> [] \<and> length (title p) \<le> 200 \<and> 10 \<le> length (content p)"
  shows "like_post u i now s =
           Inr (write_post (Some p)
                  (p\<lparr>likes := toggleLikes (u_id u) now (likes p),
                      likesCount := length (toggleLikes (u_id u) now (likes p))\<rparr>) s)"
  using f post_save_likes [OF v toggleLikes_changes] by (simp add: like_post_def)

lemma like_comment_step:
  assumes f: "findComment i s = Some c" and nd: "\<not> isDeleted c" and v: "validate_comment c"
  shows "like_comment u i now s =
           Inr (comment_post_save
                  (c\<lparr>c_likes := toggleLikes (u_id u) now (c_likes c),
                      c_likesCount := length (toggleLikes (u_id u) now (c_likes c))\<rparr>)
                  (write_comment (Some c)
                     (c\<lparr>c_likes := toggleLikes (u_id u) now (c_likes c),
                         c_likesCount := length (toggleLikes (u_id u) now (c_likes c))\<rparr>) s))"
  using f nd comment_save_likes [OF v toggleLikes_changes] by (simp add: like_comment_def)

lemma comment_save_findPost_likes:
  assumes sv: "comment_save old now c s = Inr s'" and f: "findPost i s = Some p" and f': "findPost i s' = Some p'"
  shows "likes p' = likes p \<and> likesCount p' = likesCount p"
  using comment_save_Inr [OF sv] f f'
  by (auto simp: findPost_comment_post_save)

lemma post_save_keeps_likes:
  assumes "likes q = likes p" "likesCount q = likesCount p"
  shows "likes (post_pre_save_likes (Some p) (post_pre_save (Some p) now q)) = likes p \<and>
         likesCount (post_pre_save_likes (Some p) (post_pre_save (Some p) now q)) = likesCount p"
  using assms by (simp add: likesCount_pre_save_likes isModified_def)

lemma exec_likes_frame:
  assumes e: "exec r s = Inr s'" and f: "findPost i s = Some p" and f': "findPost i s' = Some p'"
    and n: "\<forall>u now. r \<noteq> LikePost u i now"
  shows "likes p' = likes p \<and> likesCount p' = likesCount p"
proof (cases r)
  case (CreatePost u j now b)
  with e have sv: "post_save None now (new_post u j b) s = Inr s'"
    by (simp add: create_post_Inr)
  from post_save_Inr [OF sv] f f' have "p' = p"
    by (auto simp: findPost_insert split: if_splits)
  then show ?thesis by simp
next
  case (UpdatePost u j now b)
  with e obtain p0 where p0: "findPost j s = Some p0"
    and sv: "post_save (Some p0) now (apply_body b p0) s = Inr s'"
    by (auto dest: update_post_Inr)
  from findPost_Some [OF p0] have "p_id p0 = j" by simp
  with post_save_existing_find [OF sv p0, of i] f f' p0 show ?thesis
    by (auto simp: post_save_keeps_likes split: if_splits)
next
  case (DeletePost u j)
  with e f f' have "p' = p"
    by (auto dest!: delete_post_Inr simp: findPost_delete split: if_splits)
  then show ?thesis by simp
next
  case (LikePost u j now)
  with n have ji: "j \<noteq> i" by auto
  from LikePost e obtain p0 where p0: "findPost j s = Some p0"
    and sv: "post_save (Some p0) now (p0\<lparr>likes := toggleLikes (u_id u) now (likes p0)\<rparr>) s = Inr s'"
    by (auto dest: like_post_Inr)
  from findPost_Some [OF p0] have "p_id p0 = j" by simp
  with post_save_existing_find [OF sv p0, of i] f f' ji have "p' = p"
    by auto
  then show ?thesis by simp
next
  case (GetPost v j now)
  with e obtain p0 where p0: "findPost j s = Some p0"
    and sv: "post_save (Some p0) now (p0\<lparr>views := views p0 + 1\<rparr>) s = Inr s' \<or> s' = s"
    by (auto dest: get_post_Inr)
  from findPost_Some [OF p0] have j: "p_id p0 = j" by simp
  from sv show ?thesis
  proof
    assume sv': "post_save (Some p0) now (p0\<lparr>views := views p0 + 1\<rparr>) s = Inr s'"
    from post_save_existing_find [OF sv' p0, of i] j f f' p0 show ?thesis
      by (auto simp: post_save_keeps_likes split: if_splits)
  next
    assume "s' = s"
    with f f' show ?thesis by simp
  qed
next
  case (CreateComment u j now pid b parent)
  with e obtain s1 where sv: "comment_save None now (new_comment u j now pid b parent) s = Inr s1"
    and s': "s' = (case parent of None \<Rightarrow> s1 | Some pc \<Rightarrow> push_reply pc j s1)"
    by (auto dest: create_comment_Inr)
  from s' f' have "findPost i s1 = Some p'"
    by (simp split: option.splits)
  with comment_save_findPost_likes [OF sv f] show ?thesis by auto
next
  case (EditComment u j now b)
  with e f f' show ?thesis
    by (auto dest!: edit_comment_Inr dest!: comment_save_findPost_likes)
next
  case (DeleteComment u j now saved)
  with e f f' show ?thesis
    by (auto dest!: delete_comment_Inr dest!: comment_save_findPost_likes)
next
  case (LikeComment u j now)
  with e f f' show ?thesis
    by (auto dest!: like_comment_Inr dest!: comment_save_findPost_likes)
qed

lemma like_post_recounts:
  assumes e: "like_post u i now s = Inr s'"
  shows "\<exists>p'. findPost i s' = Some p' \<and> likesCount p' = length (likes p')"
proof -
  from like_post_Inr [OF e] obtain p0 where p0: "findPost i s = Some p0"
    and sv: "post_save (Some p0) now (p0\<lparr>likes := toggleLikes (u_id u) now (likes p0)\<rparr>) s = Inr s'"
    by blast
  let ?p' = "post_pre_save_likes (Some p0)
      (post_pre_save (Some p0) now (p0\<lparr>likes := toggleLikes (u_id u) now (likes p0)\<rparr>))"
  from findPost_Some [OF p0] have "p_id (p0\<lparr>likes := toggleLikes (u_id u) now (likes p0)\<rparr>) = i"
    by simp
  from post_save_existing_find [OF sv p0 this, of i] have "findPost i s' = Some ?p'"
    by simp
  moreover have "likesCount ?p' = length (likes ?p')"
    using toggleLikes_changes [of "u_id u" now "likes p0"]
    by (auto simp: likesCount_pre_save_likes isModified_def)
  ultimately show ?thesis by blast
qed


subsection \<open>The counters of a post\<close>

lemma comment_post_save_idem:
  "comment_post_save c (comment_post_save c s) = comment_post_save c s"
proof -
  have "posts (comment_post_save c (comment_post_save c s)) = posts (comment_post_save c s)"
    by (simp add: posts_comment_post_save)
  then show ?thesis
    by (simp add: comment_post_save_def)
qed

text \<open>
  C2, as amended. In the store that any sequence of requests has built from the empty
  one, after any further request that succeeds (a create, update, delete, like or view
  of a post, a create, edit, soft delete or like of a comment), every post has as its
  likes count the number of its like entries and as its comments count the number of
  the comments of the post that are not deleted. The recomputation of the comments
  count, run twice, gives what it gives run once. In any store, a like request on a post
  that succeeds leaves the likes count of the post equal to the number of its like
  entries, and a request that succeeds and is not a like request on the post leaves the
  like entries and the likes count of the post as they were.
\<close>

theorem counters_after_every_mutation:
  "(exec r (run rs empty_store) = Inr s' \<longrightarrow>
      (\<forall>p \<in> set (posts s').
          likesCount p = length (likes p) \<and>
          commentsCount p = length (filter (\<lambda>c. post c = p_id p \<and> \<not> isDeleted c) (comments s')))) \<and>
   comment_post_save c (comment_post_save c s) = comment_post_save c s \<and>
   (like_post u i now s = Inr s1 \<longrightarrow>
      (\<exists>p1. findPost i s1 = Some p1 \<and> likesCount p1 = length (likes p1))) \<and>
   (exec r0 s0 = Inr s2 \<and> (\<forall>u' now'. r0 \<noteq> LikePost u' j now') \<and>
    findPost j s0 = Some p0 \<and> findPost j s2 = Some p2
      \<longrightarrow> likes p2 = likes p0 \<and> likesCount p2 = likesCount p0)"
proof (intro conjI impI)
  assume e: "exec r (run rs empty_store) = Inr s'"
  have "store_ok s'"
    using reachable_ok e by (rule exec_ok)
  then have "counters_ok s'"
    by (simp add: store_ok_def)
  then show "\<forall>p \<in> set (posts s').
          likesCount p = length (likes p) \<and>
          commentsCount p = length (filter (\<lambda>c. post c = p_id p \<and> \<not> isDeleted c) (comments s'))"
    by (simp add: counters_ok_def list_all_iff countDocuments_def)
next
  show "comment_post_save c (comment_post_save c s) = comment_post_save c s"
    by (rule comment_post_save_idem)
next
  assume "like_post u i now s = Inr s1"
  then show "\<exists>p1. findPost i s1 = Some p1 \<and> likesCount p1 = length (likes p1)"
    by (rule like_post_recounts)
next
  assume a: "exec r0 s0 = Inr s2 \<and> (\<forall>u' now'. r0 \<noteq> LikePost u' j now') \<and>
    findPost j s0 = Some p0 \<and> findPost j s2 = Some p2"
  then have "likes p2 = likes p0 \<and> likesCount p2 = likesCount p0"
    by (intro exec_likes_frame [of r0 s0 s2 j p0 p2]) simp_all
  then show "likes p2 = likes p0" and "likesCount p2 = likesCount p0"
    by simp_all
qed

text \<open>
  The theorem at a third comment on the post of the sample thread, and at the post with
  the likes of the seed script: a like of alice recounts its four entries, and the new
  title leaves the likes count at 0 beside the three entries.
\<close>

theorem counters_after_every_mutation_witness:
  "\<not> isl (exec (CreateComment bob 3 40 1 ''Again.'' None) (run thread_requests empty_store)) \<and>
   map commentsCount
     (posts (projr (exec (CreateComment bob 3 40 1 ''Again.'' None) (run thread_requests empty_store))))
     = [3] \<and>
   map likesCount
     (posts (projr (exec (CreateComment bob 3 40 1 ''Again.'' None) (run thread_requests empty_store))))
     = [0] \<and>
   likesCount (the (findPost 1 (projr (like_post alice 1 50 seeded_store)))) = 4 \<and>
   likesCount (the (findPost 1 (projr (exec retitle seeded_store)))) = 0 \<and>
   length (likes (the (findPost 1 (projr (exec retitle seeded_store))))) = 3"
proof -
  let ?r = "CreateComment bob 3 40 1 ''Again.'' None"
  let ?s' = "projr (exec ?r (run thread_requests empty_store))"
  let ?p = "the (findPost 1 ?s')"
  let ?l = "projr (like_post alice 1 50 seeded_store)"
  let ?t = "projr (exec retitle seeded_store)"
  note T = counters_after_every_mutation
  have n: "\<not> isl (exec ?r (run thread_requests empty_store))"
    by code_simp
  then have e: "exec ?r (run thread_requests empty_store) = Inr ?s'"
    by (cases "exec ?r (run thread_requests empty_store)") simp_all
  have k: "posts ?s' = [?p]" "likes ?p = []"
    "length (filter (\<lambda>c. post c = p_id ?p \<and> \<not> isDeleted c) (comments ?s')) = 3"
    by code_simp+
  from T [where r = ?r and rs = thread_requests and s' = ?s'] e k(1)
  have "likesCount ?p = length (likes ?p) \<and>
        commentsCount ?p = length (filter (\<lambda>c. post c = p_id ?p \<and> \<not> isDeleted c) (comments ?s'))"
    by simp
  with k have 1: "map commentsCount (posts ?s') = [3]" "map likesCount (posts ?s') = [0]"
    by simp_all
  have "\<not> isl (like_post alice 1 50 seeded_store)"
    by code_simp
  then have el: "like_post alice 1 50 seeded_store = Inr ?l"
    by (cases "like_post alice 1 50 seeded_store") simp_all
  with T [where u = alice and i = 1 and now = 50 and s = seeded_store and ?s1.0 = ?l]
  obtain p1 where "findPost 1 ?l = Some p1" "likesCount p1 = length (likes p1)"
    by blast
  moreover have "length (likes (the (findPost 1 ?l))) = 4"
    by code_simp
  ultimately have 2: "likesCount (the (findPost 1 ?l)) = 4"
    by simp
  have "\<not> isl (exec retitle seeded_store)"
    by code_simp
  then have et: "exec retitle seeded_store = Inr ?t"
    by (cases "exec retitle seeded_store") simp_all
  have f: "findPost 1 seeded_store = Some (the (findPost 1 seeded_store))"
    "findPost 1 ?t = Some (the (findPost 1 ?t))"
    "likesCount (the (findPost 1 seeded_store)) = 0"
    "length (likes (the (findPost 1 seeded_store))) = 3"
    by code_simp+
  have nl: "\<forall>u' now'. retitle \<noteq> LikePost u' 1 now'"
    by (simp add: retitle_def)
  from T [where ?r0.0 = retitle and ?s0.0 = seeded_store and ?s2.0 = ?t and j = 1
      and ?p0.0 = "the (findPost 1 seeded_store)" and ?p2.0 = "the (findPost 1 ?t)"] et nl f(1,2)
  have "likes (the (findPost 1 ?t)) = likes (the (findPost 1 seeded_store)) \<and>
        likesCount (the (findPost 1 ?t)) = likesCount (the (findPost 1 seeded_store))"
    by blast
  with f have 3: "likesCount (the (findPost 1 ?t)) = 0" "length (likes (the (findPost 1 ?t))) = 3"
    by simp_all
  from n 1 2 3 show ?thesis
    by simp
qed

text \<open>
  The claim fails for the post with the likes of the seed script: the edit, the comment
  and the view succeed, and after them the post has three like entries, the likes count
  0 and the comments count 1.
\<close>

theorem stale_likesCount_counterexample:
  "map_sum id (map (length \<circ> likes) \<circ> posts) (steps seeded_requests seeded_store) = Inr [3] \<and>
   map_sum id (map likesCount \<circ> posts) (steps seeded_requests seeded_store) = Inr [0] \<and>
   map_sum id (map commentsCount \<circ> posts) (steps seeded_requests seeded_store) = Inr [1]"
  by code_simp

subsection \<open>The slug\<close>

lemma hyphenate_in_run: "hyphenate True cs = hyphenate False (dropWhile isSpace cs)"
  by (induction cs) auto

lemma replaceSpaces_hyphenate: "replaceSpaces cs = hyphenate False cs"
proof (induction cs rule: replaceSpaces.induct)
  case 1
  show ?case by simp
next
  case (2 c cs)
  then show ?case
    by (simp add: hyphenate_in_run)
qed

lemma lowerChar_not_upper: "\<not> (65 \<le> (of_char (lowerChar c) :: nat) \<and> (of_char (lowerChar c) :: nat) \<le> 90)"
  by (auto simp: lowerChar_def Let_def)

lemma isAlnum_lowerChar: "isAlnum (lowerChar c) = isLowerAlnum (lowerChar c)"
  using lowerChar_not_upper [of c] by (auto simp: isAlnum_def isLowerAlnum_def Let_def)

lemma slugify_spec: "slugify t = slug_spec t"
proof -
  have "filter (\<lambda>c. isAlnum c \<or> isSpace c) (map lowerChar t)
      = filter (\<lambda>c. isLowerAlnum c \<or> isSpace c) (map lowerChar t)"
    by (rule filter_cong) (auto simp: isAlnum_lowerChar)
  then show ?thesis
    by (simp add: slugify_def slug_spec_def removeSymbols_def toLowerCase_def replaceSpaces_hyphenate)
qed

lemma update_recomputes_slug:
  assumes e: "update_post u i now b s = Inr s'" and f: "findPost i s = Some p"
    and em: "unsetOrEmpty (slug p)" and t: "b_title b \<noteq> []" "trim (b_title b) \<noteq> title p"
  shows "\<exists>p'. findPost i s' = Some p' \<and> slug p' = Some (slugify (trim (b_title b)))"
proof -
  from update_post_Inr [OF e] f have sv: "post_save (Some p) now (apply_body b p) s = Inr s'"
    by auto
  let ?p' = "post_pre_save_likes (Some p) (post_pre_save (Some p) now (apply_body b p))"
  from findPost_Some [OF f] have "p_id (apply_body b p) = i" by simp
  from post_save_existing_find [OF sv f this, of i] have "findPost i s' = Some ?p'"
    by simp
  moreover have tt: "title (apply_body b p) = trim (b_title b)"
    using t by (simp add: apply_body_def Let_def split: option.splits)
  have "slug ?p' = Some (slugify (trim (b_title b)))"
    using em t by (simp add: slug_pre_save isModified_def tt)
  ultimately show ?thesis by blast
qed

lemma create_post_slug:
  assumes c: "create_post u i now b s = Inr s'"
  shows "\<exists>p. findPost i s' = Some p \<and> slug p = Some (slugify (trim (b_title b)))"
proof -
  let ?p' = "post_pre_save_likes None (post_pre_save None now (new_post u i b))"
  from create_post_Inr [OF c] have sv: "post_save None now (new_post u i b) s = Inr s'"
    by simp
  from post_save_Inr [OF sv] have "findPost i s' = Some ?p'"
    by (simp add: findPost_insert)
  moreover have "slug ?p' = Some (slugify (trim (b_title b)))"
    by (simp add: slug_pre_save isModified_def unsetOrEmpty_def)
  ultimately show ?thesis by blast
qed

lemma update_slug:
  assumes n: "slug p' \<noteq> slug p"
    and p': "p' = post_pre_save_likes (Some p) (post_pre_save (Some p) now (apply_body b p))"
  shows "unsetOrEmpty (slug p) \<and> b_title b \<noteq> [] \<and> trim (b_title b) \<noteq> title p \<and>
         slug p' = Some (slugify (trim (b_title b)))"
proof -
  have t: "title (apply_body b p) = (if b_title b \<noteq> [] then trim (b_title b) else title p)"
    by (simp add: apply_body_def Let_def split: option.splits)
  from n p' show ?thesis
    by (auto simp: slug_pre_save isModified_def t split: if_splits)
qed

lemma exec_slug_change:
  assumes e: "exec r s = Inr s'" and f: "findPost i s = Some p" and f': "findPost i s' = Some p'"
    and n: "slug p' \<noteq> slug p"
  shows "unsetOrEmpty (slug p) \<and>
      (\<exists>u' now' b'. r = UpdatePost u' i now' b' \<and> b_title b' \<noteq> [] \<and> trim (b_title b') \<noteq> title p \<and>
         slug p' = Some (slugify (trim (b_title b'))))"
proof -
  from exec_post_step [OF e f f'] n obtain u' now' b' where r: "r = UpdatePost u' i now' b'"
    and p': "p' = post_pre_save_likes (Some p) (post_pre_save (Some p) now' (apply_body b' p))"
    by (auto simp: same_derived_def)
  from update_slug [OF n p'] r show ?thesis
    by blast
qed

text \<open>
  C3, as amended. The slug expression of the hook is the slug of the description: the
  title in lower case, stripped of the characters that are not a letter, a digit or white
  space, with one hyphen for each run of white space, cut after 50 characters. The slug of
  "Hello World!" is "hello-world". A post that is created gets the slug of its trimmed
  title. A slug that is set and not empty stays under every later request. A slug that
  is unset or empty is recomputed by an update of the post that succeeds and sets
  another title: the slug is then the one of the new title. A request changes the slug
  of a post in no other case.
\<close>

theorem slug_set_at_creation_and_kept_unless_empty:
  "slugify t = slug_spec t \<and>
   slugify ''Hello World!'' = ''hello-world'' \<and>
   (create_post u i now b s0 = Inr s1 \<longrightarrow>
      (\<exists>p. findPost i s1 = Some p \<and> slug p = Some (slugify (trim (b_title b))))) \<and>
   (exec r s = Inr s' \<and> findPost i s = Some p \<and> findPost i s' = Some p' \<and> \<not> unsetOrEmpty (slug p)
      \<longrightarrow> slug p' = slug p) \<and>
   (update_post u2 i2 now2 b2 s2 = Inr s3 \<and> findPost i2 s2 = Some p2 \<and> unsetOrEmpty (slug p2) \<and>
    b_title b2 \<noteq> [] \<and> trim (b_title b2) \<noteq> title p2
      \<longrightarrow> (\<exists>p3. findPost i2 s3 = Some p3 \<and> slug p3 = Some (slugify (trim (b_title b2))))) \<and>
   (exec r s = Inr s' \<and> findPost i s = Some p \<and> findPost i s' = Some p' \<and> slug p' \<noteq> slug p \<longrightarrow>
      unsetOrEmpty (slug p) \<and>
      (\<exists>u' now' b'. r = UpdatePost u' i now' b' \<and> b_title b' \<noteq> [] \<and> trim (b_title b') \<noteq> title p \<and>
         slug p' = Some (slugify (trim (b_title b')))))"
proof (intro conjI impI)
  show "slugify t = slug_spec t"
    by (rule slugify_spec)
next
  show "slugify ''Hello World!'' = ''hello-world''"
    by code_simp
next
  assume "create_post u i now b s0 = Inr s1"
  then show "\<exists>p. findPost i s1 = Some p \<and> slug p = Some (slugify (trim (b_title b)))"
    by (rule create_post_slug)
next
  assume a: "exec r s = Inr s' \<and> findPost i s = Some p \<and> findPost i s' = Some p' \<and> \<not> unsetOrEmpty (slug p)"
  show "slug p' = slug p"
  proof (rule ccontr)
    assume "slug p' \<noteq> slug p"
    with a exec_slug_change [of r s s' i p p'] show False
      by blast
  qed
next
  assume "update_post u2 i2 now2 b2 s2 = Inr s3 \<and> findPost i2 s2 = Some p2 \<and> unsetOrEmpty (slug p2) \<and>
    b_title b2 \<noteq> [] \<and> trim (b_title b2) \<noteq> title p2"
  then show "\<exists>p3. findPost i2 s3 = Some p3 \<and> slug p3 = Some (slugify (trim (b_title b2)))"
    by (intro update_recomputes_slug [of u2 i2 now2 b2 s2 s3 p2]) simp_all
next
  assume a: "exec r s = Inr s' \<and> findPost i s = Some p \<and> findPost i s' = Some p' \<and> slug p' \<noteq> slug p"
  with exec_slug_change [of r s s' i p p']
  show "unsetOrEmpty (slug p)"
    and "\<exists>u' now' b'. r = UpdatePost u' i now' b' \<and> b_title b' \<noteq> [] \<and> trim (b_title b') \<noteq> title p \<and>
         slug p' = Some (slugify (trim (b_title b')))"
    by blast+
qed

text \<open>
  The theorem at the published post "Hello World!", which keeps its slug when the title
  is set, and at the draft "!!!", whose empty slug is replaced by the one of the new
  title.
\<close>

theorem slug_set_at_creation_witness:
  "create_post alice 1 10 (plain_body ''Hello World!'' ''Some text, long enough.'' ''Published'') empty_store
     = Inr hello_store \<and>
   slug (the (findPost 1 hello_store)) = Some ''hello-world'' \<and>
   slug (the (findPost 1 (projr (exec retitle hello_store)))) = Some ''hello-world'' \<and>
   unsetOrEmpty (slug (the (findPost 1 draft_store))) \<and>
   slug (the (findPost 1 (projr (exec retitle draft_store)))) = Some ''another-title''"
proof -
  let ?hb = "plain_body ''Hello World!'' ''Some text, long enough.'' ''Published''"
  let ?tb = "plain_body ''Another title'' [] []"
  let ?h' = "projr (exec retitle hello_store)"
  let ?d' = "projr (exec retitle draft_store)"
  note T = slug_set_at_creation_and_kept_unless_empty
  have c: "create_post alice 1 10 ?hb empty_store = Inr hello_store"
    by code_simp
  with T [where u = alice and i = 1 and now = 10 and b = ?hb and ?s0.0 = empty_store
      and ?s1.0 = hello_store]
  obtain p where "findPost 1 hello_store = Some p" "slug p = Some (slugify (trim (b_title ?hb)))"
    by blast
  moreover have "slugify (trim (b_title ?hb)) = ''hello-world''"
    by code_simp
  ultimately have k1: "slug (the (findPost 1 hello_store)) = Some ''hello-world''"
    by simp
  have "\<not> isl (exec retitle hello_store)"
    by code_simp
  then have eh: "exec retitle hello_store = Inr ?h'"
    by (cases "exec retitle hello_store") simp_all
  have fh: "findPost 1 hello_store = Some (the (findPost 1 hello_store))"
    "findPost 1 ?h' = Some (the (findPost 1 ?h'))"
    "\<not> unsetOrEmpty (slug (the (findPost 1 hello_store)))"
    by code_simp+
  with T [where r = retitle and s = hello_store and s' = ?h' and i = 1
      and p = "the (findPost 1 hello_store)" and p' = "the (findPost 1 ?h')"] eh
  have "slug (the (findPost 1 ?h')) = slug (the (findPost 1 hello_store))"
    by blast
  with k1 have k2: "slug (the (findPost 1 ?h')) = Some ''hello-world''"
    by simp
  have "\<not> isl (update_post alice 1 20 ?tb draft_store)"
    by code_simp
  then have ed: "update_post alice 1 20 ?tb draft_store = Inr ?d'"
    by (cases "update_post alice 1 20 ?tb draft_store") (simp_all add: retitle_def)
  have fd: "findPost 1 draft_store = Some (the (findPost 1 draft_store))"
    "unsetOrEmpty (slug (the (findPost 1 draft_store)))"
    "b_title ?tb \<noteq> []" "trim (b_title ?tb) \<noteq> title (the (findPost 1 draft_store))"
    by code_simp+
  with T [where ?u2.0 = alice and ?i2.0 = 1 and ?now2.0 = 20 and ?b2.0 = ?tb
      and ?s2.0 = draft_store and ?s3.0 = ?d' and ?p2.0 = "the (findPost 1 draft_store)"] ed
  obtain p3 where "findPost 1 ?d' = Some p3" "slug p3 = Some (slugify (trim (b_title ?tb)))"
    by blast
  moreover have "slugify (trim (b_title ?tb)) = ''another-title''"
    by code_simp
  ultimately have k3: "slug (the (findPost 1 ?d')) = Some ''another-title''"
    by simp
  from c k1 k2 fd(2) k3 show ?thesis
    by simp
qed

text \<open>
  The claim fails for the draft "!!!": its slug is empty after the creation, and the
  update of the title gives it the slug of the new title.
\<close>

theorem slug_recomputed_counterexample:
  "map_sum id (map slug \<circ> posts) (steps [draft_create] empty_store) = Inr [Some []] \<and>
   map_sum id (map slug \<circ> posts) (steps [draft_create, retitle] empty_store)
     = Inr [Some ''another-title'']"
  by code_simp

subsection \<open>The read time\<close>

lemma splitSpaces_nonempty: "splitSpaces s \<noteq> []"
  by (subst splitSpaces.simps) (simp split: list.splits)

lemma readTimeOf_positive: "1 \<le> readTimeOf c"
proof -
  have "1 \<le> length (splitSpaces (stripTags c))"
    using splitSpaces_nonempty [of "stripTags c"] by (simp add: Suc_le_eq)
  then show ?thesis
    by (simp add: readTimeOf_def wordsPerMinute_def Let_def)
qed

text \<open>
  C4. The read time is the number of pieces that the split of the stripped content
  returns, over 200 and rounded up, and is never below 1. The paragraph of 450 words of the claim gets 3. An
  empty piece before the first word or after the last one is counted as a word: the
  paragraph of 200 words, which end in a space, has 200 words, so that one minute is its
  read time by words, and the hook gives it 2.
\<close>

theorem readTime_counts_empty_pieces:
  "1 \<le> readTimeOf c \<and>
   readTimeOf (wordsHtml 450) = 3 \<and>
   length (wordsOf (wordsHtml 200)) = 200 \<and>
   readTimeByWords (wordsHtml 200) = 1 \<and>
   readTimeOf (wordsHtml 200) = 2"
  using readTimeOf_positive [of c]
  by (simp add: readTimeOf_wordsHtml wordsOf_wordsHtml readTimeByWords_def)

subsection \<open>Two likes in a row\<close>

lemma like_post_twice:
  assumes f: "findPost i s = Some p"
    and v: "title p \<noteq> [] \<and> length (title p) \<le> 200 \<and> 10 \<le> length (content p)"
    and lc: "likesCount p = length (likes p)"
    and a: "u_id u \<notin> user ` set (likes p)"
  shows "\<exists>s1 s2 p2. like_post u i t1 s = Inr s1 \<and> like_post u i t2 s1 = Inr s2 \<and>
           findPost i s2 = Some p2 \<and> likes p2 = likes p \<and> likesCount p2 = likesCount p \<and>
           u_id u \<notin> user ` set (likes p2)"
proof -
  let ?l1 = "toggleLikes (u_id u) t1 (likes p)"
  let ?p1 = "p\<lparr>likes := ?l1, likesCount := length ?l1\<rparr>"
  let ?s1 = "write_post (Some p) ?p1 s"
  let ?l2 = "toggleLikes (u_id u) t2 (likes ?p1)"
  let ?p2 = "?p1\<lparr>likes := ?l2, likesCount := length ?l2\<rparr>"
  let ?s2 = "write_post (Some ?p1) ?p2 ?s1"
  from findPost_Some [OF f] have i: "p_id p = i" by simp
  have e1: "like_post u i t1 s = Inr ?s1"
    using f v by (rule like_post_step)
  have f1: "findPost i ?s1 = Some ?p1"
    using f i by (simp add: findPost_replace)
  have v1: "title ?p1 \<noteq> [] \<and> length (title ?p1) \<le> 200 \<and> 10 \<le> length (content ?p1)"
    using v by simp
  have e2: "like_post u i t2 ?s1 = Inr ?s2"
    using f1 v1 by (rule like_post_step)
  have f2: "findPost i ?s2 = Some ?p2"
    using f1 i by (simp add: findPost_replace)
  have l2: "?l2 = likes p"
    using a by (simp add: toggleLikes_twice)
  have "likes ?p2 = likes p" "likesCount ?p2 = likesCount p" "u_id u \<notin> user ` set (likes ?p2)"
    using l2 lc a by simp_all
  with e1 e2 f2 show ?thesis by blast
qed

lemma like_comment_twice:
  assumes f: "findComment i s = Some c" and nd: "\<not> isDeleted c" and v: "validate_comment c"
    and lc: "c_likesCount c = length (c_likes c)"
    and a: "u_id u \<notin> user ` set (c_likes c)"
  shows "\<exists>s1 s2 c2. like_comment u i t1 s = Inr s1 \<and> like_comment u i t2 s1 = Inr s2 \<and>
           findComment i s2 = Some c2 \<and> c_likes c2 = c_likes c \<and> c_likesCount c2 = c_likesCount c \<and>
           u_id u \<notin> user ` set (c_likes c2)"
proof -
  let ?l1 = "toggleLikes (u_id u) t1 (c_likes c)"
  let ?c1 = "c\<lparr>c_likes := ?l1, c_likesCount := length ?l1\<rparr>"
  let ?s1 = "comment_post_save ?c1 (write_comment (Some c) ?c1 s)"
  let ?l2 = "toggleLikes (u_id u) t2 (c_likes ?c1)"
  let ?c2 = "?c1\<lparr>c_likes := ?l2, c_likesCount := length ?l2\<rparr>"
  let ?s2 = "comment_post_save ?c2 (write_comment (Some ?c1) ?c2 ?s1)"
  from findComment_Some [OF f] have i: "c_id c = i" by simp
  have e1: "like_comment u i t1 s = Inr ?s1"
    using f nd v by (rule like_comment_step)
  have f1: "findComment i ?s1 = Some ?c1"
    using f i by (simp add: findComment_replace)
  have nd1: "\<not> isDeleted ?c1" and v1: "validate_comment ?c1"
    using nd v by (simp_all add: validate_comment_def)
  have e2: "like_comment u i t2 ?s1 = Inr ?s2"
    using f1 nd1 v1 by (rule like_comment_step)
  have f2: "findComment i ?s2 = Some ?c2"
    using f1 i by (simp add: findComment_replace)
  have l2: "?l2 = c_likes c"
    using a by (simp add: toggleLikes_twice)
  have "c_likes ?c2 = c_likes c" "c_likesCount ?c2 = c_likesCount c" "u_id u \<notin> user ` set (c_likes ?c2)"
    using l2 lc a by simp_all
  with e1 e2 f2 show ?thesis by blast
qed

lemma toggleLikes_twice_present:
  assumes "uid \<in> user ` set ls"
  shows "toggleLikes uid t2 (toggleLikes uid t1 ls)
           = filter (\<lambda>l. user l \<noteq> uid) ls @ [\<lparr>user = uid, createdAt = t2\<rparr>]"
proof -
  have "uid \<notin> user ` set (filter (\<lambda>l. user l \<noteq> uid) ls)"
    by auto
  then show ?thesis
    using assms by (simp add: toggleLikes_present toggleLikes_absent)
qed

lemma like_post_twice_any:
  assumes f: "findPost i s = Some p"
    and v: "title p \<noteq> [] \<and> length (title p) \<le> 200 \<and> 10 \<le> length (content p)"
  shows "\<exists>s1 s2 p2. like_post u i t1 s = Inr s1 \<and> like_post u i t2 s1 = Inr s2 \<and>
           findPost i s2 = Some p2 \<and>
           likes p2 = toggleLikes (u_id u) t2 (toggleLikes (u_id u) t1 (likes p)) \<and>
           likesCount p2 = length (likes p2)"
proof -
  let ?l1 = "toggleLikes (u_id u) t1 (likes p)"
  let ?p1 = "p\<lparr>likes := ?l1, likesCount := length ?l1\<rparr>"
  let ?s1 = "write_post (Some p) ?p1 s"
  let ?l2 = "toggleLikes (u_id u) t2 (likes ?p1)"
  let ?p2 = "?p1\<lparr>likes := ?l2, likesCount := length ?l2\<rparr>"
  let ?s2 = "write_post (Some ?p1) ?p2 ?s1"
  from findPost_Some [OF f] have i: "p_id p = i" by simp
  have e1: "like_post u i t1 s = Inr ?s1"
    using f v by (rule like_post_step)
  have f1: "findPost i ?s1 = Some ?p1"
    using f i by (simp add: findPost_replace)
  have v1: "title ?p1 \<noteq> [] \<and> length (title ?p1) \<le> 200 \<and> 10 \<le> length (content ?p1)"
    using v by simp
  have e2: "like_post u i t2 ?s1 = Inr ?s2"
    using f1 v1 by (rule like_post_step)
  have f2: "findPost i ?s2 = Some ?p2"
    using f1 i by (simp add: findPost_replace)
  have "likes ?p2 = toggleLikes (u_id u) t2 (toggleLikes (u_id u) t1 (likes p))"
    "likesCount ?p2 = length (likes ?p2)"
    by simp_all
  with e1 e2 f2 show ?thesis by blast
qed

lemma like_comment_twice_any:
  assumes f: "findComment i s = Some c" and nd: "\<not> isDeleted c" and v: "validate_comment c"
  shows "\<exists>s1 s2 c2. like_comment u i t1 s = Inr s1 \<and> like_comment u i t2 s1 = Inr s2 \<and>
           findComment i s2 = Some c2 \<and>
           c_likes c2 = toggleLikes (u_id u) t2 (toggleLikes (u_id u) t1 (c_likes c)) \<and>
           c_likesCount c2 = length (c_likes c2)"
proof -
  let ?l1 = "toggleLikes (u_id u) t1 (c_likes c)"
  let ?c1 = "c\<lparr>c_likes := ?l1, c_likesCount := length ?l1\<rparr>"
  let ?s1 = "comment_post_save ?c1 (write_comment (Some c) ?c1 s)"
  let ?l2 = "toggleLikes (u_id u) t2 (c_likes ?c1)"
  let ?c2 = "?c1\<lparr>c_likes := ?l2, c_likesCount := length ?l2\<rparr>"
  let ?s2 = "comment_post_save ?c2 (write_comment (Some ?c1) ?c2 ?s1)"
  from findComment_Some [OF f] have i: "c_id c = i" by simp
  have e1: "like_comment u i t1 s = Inr ?s1"
    using f nd v by (rule like_comment_step)
  have f1: "findComment i ?s1 = Some ?c1"
    using f i by (simp add: findComment_replace)
  have nd1: "\<not> isDeleted ?c1" and v1: "validate_comment ?c1"
    using nd v by (simp_all add: validate_comment_def)
  have e2: "like_comment u i t2 ?s1 = Inr ?s2"
    using f1 nd1 v1 by (rule like_comment_step)
  have f2: "findComment i ?s2 = Some ?c2"
    using f1 i by (simp add: findComment_replace)
  have "c_likes ?c2 = toggleLikes (u_id u) t2 (toggleLikes (u_id u) t1 (c_likes c))"
    "c_likesCount ?c2 = length (c_likes ?c2)"
    by simp_all
  with e1 e2 f2 show ?thesis by blast
qed

text \<open>
  C5, as amended. In the store that any sequence of requests has built from the empty
  one, for a post, and for a comment that is not deleted, the like request of a user
  succeeds twice in a row. When the user had no like entry on the document, the
  document has after the two requests the like entries and the likes count that it had
  before, with no entry of the user. When the user had a like entry, the document has
  after the two requests its like entries of the other users, followed by one entry of
  the user with the time of the second request, and the number of these as its likes
  count.
\<close>

theorem like_twice_restores:
  "(findPost i (run rs empty_store) = Some p \<and> u_id u \<notin> user ` set (likes p)
      \<longrightarrow> (\<exists>s1 s2 p2. like_post u i t1 (run rs empty_store) = Inr s1 \<and> like_post u i t2 s1 = Inr s2 \<and>
             findPost i s2 = Some p2 \<and> likes p2 = likes p \<and> likesCount p2 = likesCount p \<and>
             u_id u \<notin> user ` set (likes p2))) \<and>
   (findComment j (run rs empty_store) = Some c \<and> \<not> isDeleted c \<and> u_id u \<notin> user ` set (c_likes c)
      \<longrightarrow> (\<exists>s1 s2 c2. like_comment u j t1 (run rs empty_store) = Inr s1 \<and> like_comment u j t2 s1 = Inr s2 \<and>
             findComment j s2 = Some c2 \<and> c_likes c2 = c_likes c \<and> c_likesCount c2 = c_likesCount c \<and>
             u_id u \<notin> user ` set (c_likes c2))) \<and>
   (findPost i (run rs empty_store) = Some p \<and> u_id u \<in> user ` set (likes p)
      \<longrightarrow> (\<exists>s1 s2 p2. like_post u i t1 (run rs empty_store) = Inr s1 \<and> like_post u i t2 s1 = Inr s2 \<and>
             findPost i s2 = Some p2 \<and>
             likes p2 = filter (\<lambda>l. user l \<noteq> u_id u) (likes p) @ [\<lparr>user = u_id u, createdAt = t2\<rparr>] \<and>
             likesCount p2 = length (likes p2))) \<and>
   (findComment j (run rs empty_store) = Some c \<and> \<not> isDeleted c \<and> u_id u \<in> user ` set (c_likes c)
      \<longrightarrow> (\<exists>s1 s2 c2. like_comment u j t1 (run rs empty_store) = Inr s1 \<and> like_comment u j t2 s1 = Inr s2 \<and>
             findComment j s2 = Some c2 \<and>
             c_likes c2 = filter (\<lambda>l. user l \<noteq> u_id u) (c_likes c) @ [\<lparr>user = u_id u, createdAt = t2\<rparr>] \<and>
             c_likesCount c2 = length (c_likes c2)))"
proof (intro conjI impI)
  let ?s = "run rs empty_store"
  have ok: "store_ok ?s" by (rule reachable_ok)
  {
    assume a: "findPost i ?s = Some p \<and> u_id u \<notin> user ` set (likes p)"
    then have "p \<in> set (posts ?s)"
      using findPost_Some by blast
    with ok have "title p \<noteq> [] \<and> length (title p) \<le> 200 \<and> 10 \<le> length (content p)"
      and "likesCount p = length (likes p)"
      by (auto simp: store_ok_def valid_ok_def counters_ok_def list_all_iff)
    with a show "\<exists>s1 s2 p2. like_post u i t1 ?s = Inr s1 \<and> like_post u i t2 s1 = Inr s2 \<and>
             findPost i s2 = Some p2 \<and> likes p2 = likes p \<and> likesCount p2 = likesCount p \<and>
             u_id u \<notin> user ` set (likes p2)"
      by (intro like_post_twice) simp_all
  }
  {
    assume a: "findComment j ?s = Some c \<and> \<not> isDeleted c \<and> u_id u \<notin> user ` set (c_likes c)"
    then have "c \<in> set (comments ?s)"
      using findComment_Some by blast
    with ok have "validate_comment c" and "c_likesCount c = length (c_likes c)"
      by (auto simp: store_ok_def valid_ok_def comment_likes_ok_def list_all_iff)
    with a show "\<exists>s1 s2 c2. like_comment u j t1 ?s = Inr s1 \<and> like_comment u j t2 s1 = Inr s2 \<and>
             findComment j s2 = Some c2 \<and> c_likes c2 = c_likes c \<and> c_likesCount c2 = c_likesCount c \<and>
             u_id u \<notin> user ` set (c_likes c2)"
      by (intro like_comment_twice) simp_all
  }
  {
    assume a: "findPost i ?s = Some p \<and> u_id u \<in> user ` set (likes p)"
    then have "p \<in> set (posts ?s)"
      using findPost_Some by blast
    with ok have v: "title p \<noteq> [] \<and> length (title p) \<le> 200 \<and> 10 \<le> length (content p)"
      by (auto simp: store_ok_def valid_ok_def list_all_iff)
    from a have f: "findPost i ?s = Some p" by simp
    from a have "toggleLikes (u_id u) t2 (toggleLikes (u_id u) t1 (likes p))
        = filter (\<lambda>l. user l \<noteq> u_id u) (likes p) @ [\<lparr>user = u_id u, createdAt = t2\<rparr>]"
      by (simp add: toggleLikes_twice_present)
    with like_post_twice_any [OF f v, of u t1 t2]
    show "\<exists>s1 s2 p2. like_post u i t1 ?s = Inr s1 \<and> like_post u i t2 s1 = Inr s2 \<and>
             findPost i s2 = Some p2 \<and>
             likes p2 = filter (\<lambda>l. user l \<noteq> u_id u) (likes p) @ [\<lparr>user = u_id u, createdAt = t2\<rparr>] \<and>
             likesCount p2 = length (likes p2)"
      by auto
  }
  {
    assume a: "findComment j ?s = Some c \<and> \<not> isDeleted c \<and> u_id u \<in> user ` set (c_likes c)"
    then have "c \<in> set (comments ?s)"
      using findComment_Some by blast
    with ok have v: "validate_comment c"
      by (auto simp: store_ok_def valid_ok_def list_all_iff)
    from a have f: "findComment j ?s = Some c" and nd: "\<not> isDeleted c" by simp_all
    from a have "toggleLikes (u_id u) t2 (toggleLikes (u_id u) t1 (c_likes c))
        = filter (\<lambda>l. user l \<noteq> u_id u) (c_likes c) @ [\<lparr>user = u_id u, createdAt = t2\<rparr>]"
      by (simp add: toggleLikes_twice_present)
    with like_comment_twice_any [OF f nd v, of u t1 t2]
    show "\<exists>s1 s2 c2. like_comment u j t1 ?s = Inr s1 \<and> like_comment u j t2 s1 = Inr s2 \<and>
             findComment j s2 = Some c2 \<and>
             c_likes c2 = filter (\<lambda>l. user l \<noteq> u_id u) (c_likes c) @ [\<lparr>user = u_id u, createdAt = t2\<rparr>] \<and>
             c_likesCount c2 = length (c_likes c2)"
      by auto
  }
qed

text \<open>
  The theorem at the post and at the first comment of the sample thread, which nobody
  likes, and at the same two once bob likes them.
\<close>

theorem like_twice_restores_witness:
  "(\<exists>s1 s2 p2. like_post bob 1 50 (run thread_requests empty_store) = Inr s1 \<and>
      like_post bob 1 60 s1 = Inr s2 \<and> findPost 1 s2 = Some p2 \<and> likes p2 = [] \<and> likesCount p2 = 0) \<and>
   (\<exists>s1 s2 c2. like_comment bob 1 50 (run thread_requests empty_store) = Inr s1 \<and>
      like_comment bob 1 60 s1 = Inr s2 \<and> findComment 1 s2 = Some c2 \<and> c_likes c2 = [] \<and>
      c_likesCount c2 = 0) \<and>
   (\<exists>s1 s2 p2. like_post bob 1 60 (run liked_requests empty_store) = Inr s1 \<and>
      like_post bob 1 70 s1 = Inr s2 \<and> findPost 1 s2 = Some p2 \<and>
      likes p2 = [\<lparr>user = 2, createdAt = 70\<rparr>] \<and> likesCount p2 = 1) \<and>
   (\<exists>s1 s2 c2. like_comment bob 1 60 (run liked_requests empty_store) = Inr s1 \<and>
      like_comment bob 1 70 s1 = Inr s2 \<and> findComment 1 s2 = Some c2 \<and>
      c_likes c2 = [\<lparr>user = 2, createdAt = 70\<rparr>] \<and> c_likesCount c2 = 1)"
proof -
  let ?s = "run thread_requests empty_store"
  let ?p = "the (findPost 1 ?s)"
  let ?c = "the (findComment 1 ?s)"
  let ?l = "run liked_requests empty_store"
  let ?q = "the (findPost 1 ?l)"
  let ?d = "the (findComment 1 ?l)"
  have p: "findPost 1 ?s = Some ?p" "u_id bob \<notin> user ` set (likes ?p)"
    and p0: "likes ?p = []" "likesCount ?p = 0"
    by code_simp+
  have c: "findComment 1 ?s = Some ?c" "\<not> isDeleted ?c" "u_id bob \<notin> user ` set (c_likes ?c)"
    and c0: "c_likes ?c = []" "c_likesCount ?c = 0"
    by code_simp+
  have q: "findPost 1 ?l = Some ?q" "u_id bob \<in> user ` set (likes ?q)"
    and q0: "filter (\<lambda>l. user l \<noteq> u_id bob) (likes ?q) @ [\<lparr>user = u_id bob, createdAt = 70\<rparr>]
               = [\<lparr>user = 2, createdAt = 70\<rparr>]"
    by code_simp+
  have d: "findComment 1 ?l = Some ?d" "\<not> isDeleted ?d" "u_id bob \<in> user ` set (c_likes ?d)"
    and d0: "filter (\<lambda>l. user l \<noteq> u_id bob) (c_likes ?d) @ [\<lparr>user = u_id bob, createdAt = 70\<rparr>]
               = [\<lparr>user = 2, createdAt = 70\<rparr>]"
    by code_simp+
  note t = like_twice_restores [where i = 1 and rs = thread_requests and p = ?p and u = bob
      and ?t1.0 = 50 and ?t2.0 = 60 and j = 1 and c = ?c]
  note t' = like_twice_restores [where i = 1 and rs = liked_requests and p = ?q and u = bob
      and ?t1.0 = 60 and ?t2.0 = 70 and j = 1 and c = ?d]
  from t p obtain s1 s2 p2 where "like_post bob 1 50 ?s = Inr s1" "like_post bob 1 60 s1 = Inr s2"
    "findPost 1 s2 = Some p2" "likes p2 = likes ?p" "likesCount p2 = likesCount ?p"
    by blast
  with p0 have 1: "\<exists>s1 s2 p2. like_post bob 1 50 ?s = Inr s1 \<and>
      like_post bob 1 60 s1 = Inr s2 \<and> findPost 1 s2 = Some p2 \<and> likes p2 = [] \<and> likesCount p2 = 0"
    by auto
  from t c obtain s1 s2 c2 where "like_comment bob 1 50 ?s = Inr s1"
    "like_comment bob 1 60 s1 = Inr s2" "findComment 1 s2 = Some c2" "c_likes c2 = c_likes ?c"
    "c_likesCount c2 = c_likesCount ?c"
    by blast
  with c0 have 2: "\<exists>s1 s2 c2. like_comment bob 1 50 ?s = Inr s1 \<and>
      like_comment bob 1 60 s1 = Inr s2 \<and> findComment 1 s2 = Some c2 \<and> c_likes c2 = [] \<and>
      c_likesCount c2 = 0"
    by auto
  from t' q obtain s1 s2 p2 where "like_post bob 1 60 ?l = Inr s1" "like_post bob 1 70 s1 = Inr s2"
    "findPost 1 s2 = Some p2"
    "likes p2 = filter (\<lambda>l. user l \<noteq> u_id bob) (likes ?q) @ [\<lparr>user = u_id bob, createdAt = 70\<rparr>]"
    "likesCount p2 = length (likes p2)"
    by blast
  with q0 have 3: "\<exists>s1 s2 p2. like_post bob 1 60 ?l = Inr s1 \<and>
      like_post bob 1 70 s1 = Inr s2 \<and> findPost 1 s2 = Some p2 \<and>
      likes p2 = [\<lparr>user = 2, createdAt = 70\<rparr>] \<and> likesCount p2 = 1"
    by auto
  from t' d obtain s1 s2 c2 where "like_comment bob 1 60 ?l = Inr s1" "like_comment bob 1 70 s1 = Inr s2"
    "findComment 1 s2 = Some c2"
    "c_likes c2 = filter (\<lambda>l. user l \<noteq> u_id bob) (c_likes ?d) @ [\<lparr>user = u_id bob, createdAt = 70\<rparr>]"
    "c_likesCount c2 = length (c_likes c2)"
    by blast
  with d0 have 4: "\<exists>s1 s2 c2. like_comment bob 1 60 ?l = Inr s1 \<and>
      like_comment bob 1 70 s1 = Inr s2 \<and> findComment 1 s2 = Some c2 \<and>
      c_likes c2 = [\<lparr>user = 2, createdAt = 70\<rparr>] \<and> c_likesCount c2 = 1"
    by auto
  from 1 2 3 4 show ?thesis
    by blast
qed

text \<open>
  The claim fails for a user who likes the post already: bob's like of time 50 is on the
  post; after his next two like requests the post has a like entry of bob again, a new
  one of time 70.
\<close>

theorem like_twice_counterexample:
  "map_sum id (map (map user \<circ> likes) \<circ> posts) (steps liked_requests empty_store) = Inr [[2]] \<and>
   map_sum id (map (map createdAt \<circ> likes) \<circ> posts) (steps liked_requests empty_store) = Inr [[50]] \<and>
   map_sum id (map (map user \<circ> likes) \<circ> posts)
     (steps (liked_requests @ [LikePost bob 1 60, LikePost bob 1 70]) empty_store) = Inr [[2]] \<and>
   map_sum id (map (map createdAt \<circ> likes) \<circ> posts)
     (steps (liked_requests @ [LikePost bob 1 60, LikePost bob 1 70]) empty_store) = Inr [[70]]"
  by code_simp

subsection \<open>The published date\<close>

lemma publishedAt_update:
  "publishedAt (post_pre_save_likes (Some p) (post_pre_save (Some p) now (apply_body b p))) =
     (if status (apply_body b p) \<noteq> status p \<and> status (apply_body b p) = ''Published'' \<and> publishedAt p = None
      then Some now else publishedAt p)"
  by (simp add: publishedAt_pre_save isModified_def)

lemma publishedAt_create:
  "publishedAt (post_pre_save_likes None (post_pre_save None now (new_post u i b))) =
     (if status (post_pre_save_likes None (post_pre_save None now (new_post u i b))) = ''Published''
      then Some now else None)"
  by (simp add: publishedAt_pre_save isModified_def)

text \<open>
  C7. In the store that any sequence of requests has built from the empty one, and for a
  post that is there after one more request that succeeds: a published date that the post
  had before the request is the one it has after it; a post whose status is Published
  has a published date; and when the post had no published date before the request (or
  was not there) and has one after it, the request is the create or an update of this
  post, the status is Published after it, and the date is the time of that save.
\<close>

theorem publishedAt_set_once:
  assumes e: "exec r (run rs empty_store) = Inr s'" and f': "findPost i s' = Some p'"
  shows "(\<forall>p t. findPost i (run rs empty_store) = Some p \<and> publishedAt p = Some t
            \<longrightarrow> publishedAt p' = Some t) \<and>
         (status p' = ''Published'' \<longrightarrow> publishedAt p' \<noteq> None) \<and>
         ((\<forall>p. findPost i (run rs empty_store) = Some p \<longrightarrow> publishedAt p = None) \<and>
          publishedAt p' \<noteq> None
            \<longrightarrow> status p' = ''Published'' \<and>
                (\<exists>u now b. (r = CreatePost u i now b \<or> r = UpdatePost u i now b) \<and>
                   publishedAt p' = Some now))"
proof (intro conjI allI impI)
  fix p t
  assume a: "findPost i (run rs empty_store) = Some p \<and> publishedAt p = Some t"
  then have f: "findPost i (run rs empty_store) = Some p" by simp
  from exec_post_step [OF e f f'] a show "publishedAt p' = Some t"
    by (auto simp: publishedAt_pre_save isModified_def same_derived_def)
next
  have "store_ok s'"
    using reachable_ok e by (rule exec_ok)
  moreover have "p' \<in> set (posts s')"
    using findPost_Some [OF f'] by simp
  ultimately have "status p' = ''Published'' \<longrightarrow> publishedAt p' \<noteq> None"
    by (auto simp: store_ok_def published_ok_def list_all_iff)
  moreover assume "status p' = ''Published''"
  ultimately show "publishedAt p' \<noteq> None" by simp
next
  assume a: "(\<forall>p. findPost i (run rs empty_store) = Some p \<longrightarrow> publishedAt p = None) \<and>
          publishedAt p' \<noteq> None"
  have "status p' = ''Published'' \<and>
        (\<exists>u now b. (r = CreatePost u i now b \<or> r = UpdatePost u i now b) \<and> publishedAt p' = Some now)"
  proof (cases "findPost i (run rs empty_store)")
    case None
    from exec_new_post [OF e None f'] obtain u now b where r: "r = CreatePost u i now b"
      and p': "p' = post_pre_save_likes None (post_pre_save None now (new_post u i b))"
      by blast
    from a have "publishedAt p' \<noteq> None" by simp
    with publishedAt_create [of now u i b] p' have "status p' = ''Published''" "publishedAt p' = Some now"
      by (auto split: if_splits)
    with r show ?thesis by blast
  next
    case (Some p)
    with a have n: "publishedAt p = None" "publishedAt p' \<noteq> None" by simp_all
    from exec_post_step [OF e Some f'] n obtain u now b where r: "r = UpdatePost u i now b"
      and p': "p' = post_pre_save_likes (Some p) (post_pre_save (Some p) now (apply_body b p))"
      by (auto simp: same_derived_def)
    from n publishedAt_update [of p now b] p'
    have "status p' = ''Published''" "publishedAt p' = Some now"
      by (auto split: if_splits)
    with r show ?thesis by blast
  qed
  then show "status p' = ''Published''"
    and "\<exists>u now b. (r = CreatePost u i now b \<or> r = UpdatePost u i now b) \<and> publishedAt p' = Some now"
    by simp_all
qed

text \<open>
  The theorem at the draft that was published at 20 and archived at 30, and is published
  again at 40: its published date stays 20.
\<close>

theorem publishedAt_set_once_witness:
  "publishedAt (the (findPost 1 (run archived_requests empty_store))) = Some 20 \<and>
   status (the (findPost 1 (run archived_requests empty_store))) = ''Archived'' \<and>
   \<not> isl (exec (set_status 40 ''Published'') (run archived_requests empty_store)) \<and>
   status (the (findPost 1 (projr (exec (set_status 40 ''Published'') (run archived_requests empty_store)))))
     = ''Published'' \<and>
   publishedAt (the (findPost 1 (projr (exec (set_status 40 ''Published'') (run archived_requests empty_store)))))
     = Some 20"
proof -
  let ?s = "run archived_requests empty_store"
  let ?r = "set_status 40 ''Published''"
  let ?s' = "projr (exec ?r ?s)"
  have n: "\<not> isl (exec ?r ?s)"
    by code_simp
  then have e: "exec ?r ?s = Inr ?s'"
    by (cases "exec ?r ?s") simp_all
  have f: "findPost 1 ?s = Some (the (findPost 1 ?s))"
    and f': "findPost 1 ?s' = Some (the (findPost 1 ?s'))"
    by code_simp+
  have k: "publishedAt (the (findPost 1 ?s)) = Some 20"
    "status (the (findPost 1 ?s)) = ''Archived''"
    "status (the (findPost 1 ?s')) = ''Published''"
    by code_simp+
  from publishedAt_set_once [OF e f'] f k(1)
  have "publishedAt (the (findPost 1 ?s')) = Some 20"
    by blast
  with n k show ?thesis
    by simp
qed

subsection \<open>Creating a comment\<close>

lemma blank_trim: "\<not> blank b \<Longrightarrow> trim b \<noteq> []"
  by (simp add: blank_def)

lemma comment_save_new_succeeds:
  assumes "validate_comment c" and "findComment (c_id c) s = None"
  shows "comment_save None now c s =
           Inr (comment_post_save (comment_pre_save None now c) (write_comment None (comment_pre_save None now c) s))"
  using assms by (simp add: comment_save_def Let_def)

lemma create_comment_succeeds:
  assumes nb: "\<not> blank b" and len: "length (trim b) \<le> 1000"
    and p: "findPost pid s = Some p" and st: "status p = ''Published''"
    and par: "\<not> invalid_parent parent pid s" and fresh: "findComment i s = None"
  shows "\<exists>s' c. create_comment u i now pid b parent s = Inr s' \<and>
           findComment i s' = Some c \<and> parentComment c = parent \<and> post c = pid"
proof -
  let ?c = "new_comment u i now pid b parent"
  let ?c' = "comment_pre_save None now ?c"
  let ?s1 = "comment_post_save ?c' (write_comment None ?c' s)"
  let ?s' = "case parent of None \<Rightarrow> ?s1 | Some pc \<Rightarrow> push_reply pc i ?s1"
  have v: "validate_comment ?c"
    using blank_trim [OF nb] len by (simp add: validate_comment_def Suc_le_eq)
  have sv: "comment_save None now ?c s = Inr ?s1"
    using v fresh by (simp add: comment_save_new_succeeds)
  have c: "create_comment u i now pid b parent s = Inr ?s'"
    using nb p st par sv by (simp add: create_comment_def)
  have f1: "findComment i ?s1 = Some ?c'"
    using fresh by (simp add: findComment_insert)
  have "\<exists>c. findComment i ?s' = Some c \<and> parentComment c = parent \<and> post c = pid"
    using f1 by (cases parent) (auto simp: findComment_push_reply)
  with c show ?thesis by blast
qed

text \<open>
  C9, as amended. A request to create a comment whose text is not blank fails with
  NotFound when the post is missing and with InvalidState when the status of the post is
  not Published, a Draft in particular. After an update that sets the status of the post
  to Published, the request succeeds, when the trimmed text has at most 1000 characters,
  the id of the comment is new, and the parent, if there is one, passes the check of the
  handler. A request whose text is blank fails with the validation error, whatever the
  post is: the handler refuses it before it looks the post up.
\<close>

theorem create_comment_post_checks:
  assumes nb: "\<not> blank b"
  shows "(findPost pid s = None \<longrightarrow> create_comment u i now pid b parent s = Inl NotFound) \<and>
         (\<forall>p. findPost pid s = Some p \<and> status p \<noteq> ''Published''
            \<longrightarrow> create_comment u i now pid b parent s = Inl InvalidState) \<and>
         (\<forall>p. findPost pid s = Some p \<and> status p = ''Draft''
            \<longrightarrow> create_comment u i now pid b parent s = Inl InvalidState) \<and>
         (\<forall>au t pb s1. update_post au pid t pb s = Inr s1 \<and> b_status pb = ''Published'' \<and>
              length (trim b) \<le> 1000 \<and> findComment i s1 = None \<and> \<not> invalid_parent parent pid s1
            \<longrightarrow> (\<exists>s2. create_comment u i now pid b parent s1 = Inr s2)) \<and>
         (blank b0 \<longrightarrow> create_comment u i now pid b0 parent s = Inl ValidationError)"
proof (intro conjI allI impI)
  assume "blank b0"
  then show "create_comment u i now pid b0 parent s = Inl ValidationError"
    by (simp add: create_comment_def)
next
  assume "findPost pid s = None"
  with nb show "create_comment u i now pid b parent s = Inl NotFound"
    by (simp add: create_comment_def)
next
  fix p assume "findPost pid s = Some p \<and> status p \<noteq> ''Published''"
  with nb show "create_comment u i now pid b parent s = Inl InvalidState"
    by (simp add: create_comment_def)
next
  fix p assume "findPost pid s = Some p \<and> status p = ''Draft''"
  with nb show "create_comment u i now pid b parent s = Inl InvalidState"
    by (simp add: create_comment_def)
next
  fix au t pb s1
  assume a: "update_post au pid t pb s = Inr s1 \<and> b_status pb = ''Published'' \<and>
              length (trim b) \<le> 1000 \<and> findComment i s1 = None \<and> \<not> invalid_parent parent pid s1"
  then obtain p0 where p0: "findPost pid s = Some p0"
    and sv: "post_save (Some p0) t (apply_body pb p0) s = Inr s1"
    by (auto dest: update_post_Inr)
  let ?p1 = "post_pre_save_likes (Some p0) (post_pre_save (Some p0) t (apply_body pb p0))"
  from findPost_Some [OF p0] have "p_id (apply_body pb p0) = pid" by simp
  from post_save_existing_find [OF sv p0 this, of pid] have f1: "findPost pid s1 = Some ?p1"
    by simp
  have st: "status ?p1 = ''Published''"
    using a by (simp add: apply_body_def Let_def split: option.splits)
  from create_comment_succeeds [OF nb _ f1 st] a
  show "\<exists>s2. create_comment u i now pid b parent s1 = Inr s2"
    by blast
qed


text \<open>
  The theorem at a missing post, at the sample draft, at the draft once it is published,
  and at a text of two spaces.
\<close>

theorem create_comment_post_checks_witness:
  "\<not> blank ''Nice.'' \<and>
   create_comment bob 1 30 7 ''Nice.'' None empty_store = Inl NotFound \<and>
   create_comment bob 1 30 1 ''Nice.'' None draft_store = Inl InvalidState \<and>
   \<not> isl (create_comment bob 1 30 1 ''Nice.'' None
            (projr (update_post alice 1 20 (plain_body [] [] ''Published'') draft_store))) \<and>
   create_comment bob 1 30 1 ''  '' None draft_store = Inl ValidationError"
proof -
  let ?pb = "plain_body [] [] ''Published''"
  let ?s1 = "projr (update_post alice 1 20 ?pb draft_store)"
  have nb: "\<not> blank ''Nice.''"
    by code_simp
  have "findPost 7 empty_store = None"
    by code_simp
  with create_comment_post_checks [OF nb, of 7 empty_store bob 1 30 None]
  have a: "create_comment bob 1 30 7 ''Nice.'' None empty_store = Inl NotFound"
    by blast
  have "findPost 1 draft_store = Some (the (findPost 1 draft_store))"
    "status (the (findPost 1 draft_store)) = ''Draft''"
    by code_simp+
  with create_comment_post_checks [OF nb, of 1 draft_store bob 1 30 None]
  have b: "create_comment bob 1 30 1 ''Nice.'' None draft_store = Inl InvalidState"
    by blast
  have "\<not> isl (update_post alice 1 20 ?pb draft_store)"
    by code_simp
  then have u: "update_post alice 1 20 ?pb draft_store = Inr ?s1"
    by (cases "update_post alice 1 20 ?pb draft_store") simp_all
  have k: "b_status ?pb = ''Published''" "length (trim ''Nice.'') \<le> 1000"
    "findComment 1 ?s1 = None" "\<not> invalid_parent None 1 ?s1"
    by code_simp+
  with create_comment_post_checks [OF nb, of 1 draft_store bob 1 30 None] u
  obtain s2 where "create_comment bob 1 30 1 ''Nice.'' None ?s1 = Inr s2"
    by blast
  then have "\<not> isl (create_comment bob 1 30 1 ''Nice.'' None ?s1)"
    by simp
  moreover have "blank ''  ''"
    by code_simp
  with create_comment_post_checks [OF nb, where ?b0.0 = "''  ''" and pid = 1 and s = draft_store
      and u = bob and i = 1 and now = 30 and parent = None]
  have "create_comment bob 1 30 1 ''  '' None draft_store = Inl ValidationError"
    by blast
  ultimately show ?thesis
    using nb a b by simp
qed

text \<open>
  The claim fails for a request with a blank text: it is answered with the validation
  error, whether the post is missing or a draft.
\<close>

theorem create_comment_blank_counterexample:
  "findPost 7 empty_store = None \<and>
   create_comment alice 1 10 7 [] None empty_store = Inl ValidationError \<and>
   map status (posts draft_store) = [''Draft''] \<and>
   create_comment bob 1 20 1 ''   '' None draft_store = Inl ValidationError"
  by code_simp

text \<open>
  C1, as amended. A request to create a comment with a parent, with a text that is not
  blank, on a post that is there and Published, fails with InvalidParent exactly when no
  comment has the id of the parent or the comment that has it is on another post. The
  handler does not look at the parent of the parent: when the parent is on the post, the
  trimmed text has at most 1000 characters and the id of the comment is new, the request
  succeeds and the new comment has that parent, be the parent top-level or a reply.
\<close>

theorem create_comment_parent_check:
  assumes nb: "\<not> blank b" and p: "findPost pid s = Some p" and st: "status p = ''Published''"
  shows "((create_comment u i now pid b (Some pc) s = Inl InvalidParent) =
            (findComment pc s = None \<or> (\<exists>d. findComment pc s = Some d \<and> post d \<noteq> pid))) \<and>
         (\<forall>d. findComment pc s = Some d \<and> post d = pid \<and> length (trim b) \<le> 1000 \<and>
              findComment i s = None
            \<longrightarrow> (\<exists>s' c. create_comment u i now pid b (Some pc) s = Inr s' \<and>
                    findComment i s' = Some c \<and> parentComment c = Some pc))"
proof (intro conjI allI impI)
  have inv: "invalid_parent (Some pc) pid s =
               (findComment pc s = None \<or> (\<exists>d. findComment pc s = Some d \<and> post d \<noteq> pid))"
    by (simp add: invalid_parent_def split: option.splits)
  show "(create_comment u i now pid b (Some pc) s = Inl InvalidParent) =
            (findComment pc s = None \<or> (\<exists>d. findComment pc s = Some d \<and> post d \<noteq> pid))"
  proof (cases "invalid_parent (Some pc) pid s")
    case True
    with nb p st have "create_comment u i now pid b (Some pc) s = Inl InvalidParent"
      by (simp add: create_comment_def)
    with True inv show ?thesis by simp
  next
    case False
    with nb p st have "create_comment u i now pid b (Some pc) s \<noteq> Inl InvalidParent"
      by (auto simp: create_comment_def comment_save_def Let_def split: sum.splits if_splits)
    with False inv show ?thesis by simp
  qed
next
  fix d
  assume a: "findComment pc s = Some d \<and> post d = pid \<and> length (trim b) \<le> 1000 \<and> findComment i s = None"
  then have "\<not> invalid_parent (Some pc) pid s"
    by (simp add: invalid_parent_def)
  from create_comment_succeeds [OF nb _ p st this] a
  show "\<exists>s' c. create_comment u i now pid b (Some pc) s = Inr s' \<and>
          findComment i s' = Some c \<and> parentComment c = Some pc"
    by blast
qed


text \<open>
  The theorem at the sample thread: a parent that does not exist is refused, and a reply
  to comment 2, which is itself the reply to comment 1, is accepted.
\<close>

theorem create_comment_parent_check_witness:
  "create_comment bob 3 40 1 ''Welcome.'' (Some 9) thread_store = Inl InvalidParent \<and>
   parentComment (the (findComment 2 thread_store)) = Some 1 \<and>
   \<not> isl (create_comment bob 3 40 1 ''Welcome.'' (Some 2) thread_store)"
proof -
  have nb: "\<not> blank ''Welcome.''"
    by code_simp
  have p: "findPost 1 thread_store = Some (the (findPost 1 thread_store))"
    and st: "status (the (findPost 1 thread_store)) = ''Published''"
    by code_simp+
  have "findComment 9 thread_store = None"
    by code_simp
  with create_comment_parent_check [OF nb p st, of bob 3 40 9]
  have a: "create_comment bob 3 40 1 ''Welcome.'' (Some 9) thread_store = Inl InvalidParent"
    by blast
  have k: "findComment 2 thread_store = Some (the (findComment 2 thread_store))"
    "post (the (findComment 2 thread_store)) = 1"
    "length (trim ''Welcome.'') \<le> 1000"
    "findComment 3 thread_store = None"
    "parentComment (the (findComment 2 thread_store)) = Some 1"
    by code_simp+
  with create_comment_parent_check [OF nb p st, of bob 3 40 2]
  obtain s' where "create_comment bob 3 40 1 ''Welcome.'' (Some 2) thread_store = Inr s'"
    by blast
  then have "\<not> isl (create_comment bob 3 40 1 ''Welcome.'' (Some 2) thread_store)"
    by simp
  with a k show ?thesis
    by simp
qed

text \<open>
  The claim fails for a reply to a reply: the four requests succeed, and the third
  comment has as its parent the second one, whose parent is the first.
\<close>

theorem reply_to_reply_counterexample:
  "map_sum id (map parentComment \<circ> comments) (steps reply_to_reply empty_store)
     = Inr [None, Some 1, Some 2]"
  by code_simp

subsection \<open>The soft delete of a comment\<close>

text \<open>
  C10, as amended. A soft delete that succeeds leaves the comment deleted. When the text
  of the comment was not the text that the delete writes, the comment is marked as
  edited, with the time at which the hook ran as the time of the edit. When the text was
  that text already, the assignment does not modify the path, and the edit mark and the
  edit time stay as they were.
\<close>

theorem soft_delete_marks_edited_when_text_changes:
  assumes f: "findComment i s = Some c" and e: "delete_comment u i now saved s = Inr s'"
  shows "\<exists>c'. findComment i s' = Some c' \<and> isDeleted c' \<and>
           (comment c \<noteq> deletedText \<longrightarrow> isEdited c' \<and> editedAt c' = Some saved) \<and>
           (comment c = deletedText \<longrightarrow> isEdited c' = isEdited c \<and> editedAt c' = editedAt c)"
proof -
  let ?d = "c\<lparr>isDeleted := True, deletedAt := Some now, comment := deletedText\<rparr>"
  let ?c' = "comment_pre_save (Some c) saved ?d"
  from delete_comment_Inr [OF e] f have sv: "comment_save (Some c) saved ?d s = Inr s'"
    by simp
  from findComment_Some [OF f] have i: "c_id ?c' = i" by simp
  from comment_save_Inr [OF sv] have "s' = comment_post_save ?c' (write_comment (Some c) ?c' s)"
    by simp
  then have "findComment i s' = Some ?c'"
    using f i by (simp add: findComment_replace)
  moreover have "isDeleted ?c'" by simp
  moreover have "comment c \<noteq> deletedText \<longrightarrow> isEdited ?c' \<and> editedAt ?c' = Some saved"
    by (simp add: isEdited_pre_save isModified_def)
  moreover have "comment c = deletedText \<longrightarrow> isEdited ?c' = isEdited c \<and> editedAt ?c' = editedAt c"
    by (simp add: isEdited_pre_save isModified_def)
  ultimately show ?thesis by blast
qed


text \<open>The theorem at the first comment of the sample thread, which nobody has edited.\<close>

theorem soft_delete_marks_edited_witness:
  "\<not> isl (delete_comment bob 1 50 51 thread_store) \<and>
   \<not> isEdited (the (findComment 1 thread_store)) \<and>
   isEdited (the (findComment 1 (projr (delete_comment bob 1 50 51 thread_store)))) \<and>
   editedAt (the (findComment 1 (projr (delete_comment bob 1 50 51 thread_store)))) = Some 51"
proof -
  let ?s' = "projr (delete_comment bob 1 50 51 thread_store)"
  have n: "\<not> isl (delete_comment bob 1 50 51 thread_store)"
    by code_simp
  then have e: "delete_comment bob 1 50 51 thread_store = Inr ?s'"
    by (cases "delete_comment bob 1 50 51 thread_store") simp_all
  have f: "findComment 1 thread_store = Some (the (findComment 1 thread_store))"
    and k: "comment (the (findComment 1 thread_store)) \<noteq> deletedText"
      "\<not> isEdited (the (findComment 1 thread_store))"
    by code_simp+
  from soft_delete_marks_edited_when_text_changes [OF f e] k(1)
  obtain c' where "findComment 1 ?s' = Some c'" "isEdited c'" "editedAt c' = Some 51"
    by blast
  with n k show ?thesis
    by simp
qed

text \<open>
  The claim fails for a comment whose text is the text of a deleted comment: after its
  soft delete it is deleted and not marked as edited.
\<close>

theorem soft_delete_not_edited_counterexample:
  "map_sum id (map isDeleted \<circ> comments) (steps delete_placeholder empty_store) = Inr [True] \<and>
   map_sum id (map isEdited \<circ> comments) (steps delete_placeholder empty_store) = Inr [False] \<and>
   map_sum id (map editedAt \<circ> comments) (steps delete_placeholder empty_store) = Inr [None]"
  by code_simp

subsection \<open>The list of the comments of a post\<close>

lemma set_map_filter: "set (List.map_filter f xs) = {y. \<exists>x \<in> set xs. f x = Some y}"
  by (induction xs) (auto simp: List.map_filter_simps split: option.splits)

lemma populate_replies_shown:
  assumes "d \<in> set (populate_replies s c)"
  shows "d \<in> set (comments s) \<and> \<not> isDeleted d"
proof -
  from assms obtain j where "(case findComment j s of None \<Rightarrow> None
       | Some d' \<Rightarrow> if isDeleted d' then None else Some d') = Some d"
    by (auto simp: populate_replies_def set_map_filter)
  then have "findComment j s = Some d" "\<not> isDeleted d"
    by (auto split: option.splits if_splits)
  with findComment_Some show ?thesis by blast
qed

lemma list_comments_shown:
  assumes l: "list_comments pid page limit s = Inr out" and m: "(t, rs) \<in> set out"
  shows "t \<in> set (comments s) \<and> \<not> isDeleted t \<and> (\<forall>d \<in> set rs. d \<in> set (comments s) \<and> \<not> isDeleted d)"
proof -
  let ?found = "filter (\<lambda>c. post c = pid \<and> \<not> isDeleted c \<and> parentComment c = None) (comments s)"
  from l obtain n k where out: "out = map (\<lambda>c. (c, populate_replies s c))
      (take n (drop k (rev (sort_key c_createdAt ?found))))"
    by (auto simp: list_comments_def Let_def split: option.splits)
  with m have t: "t \<in> set (take n (drop k (rev (sort_key c_createdAt ?found))))"
    and rs: "rs = populate_replies s t"
    by auto
  from t have "t \<in> set (rev (sort_key c_createdAt ?found))"
    by (blast dest: in_set_takeD in_set_dropD)
  then have "t \<in> set (comments s) \<and> \<not> isDeleted t"
    by simp
  with rs populate_replies_shown show ?thesis
    by blast
qed

text \<open>
  C6. In the store that any sequence of requests has built from the empty one, a soft
  delete that succeeds on a comment that is not deleted leaves it deleted, with the time
  of the handler as the time of the delete and the fixed text as its text. The ids of
  the comments and the replies of each comment are as before, so that the id stays in
  the replies of its parent. No page of the list of any post shows the comment, be it as
  a top-level comment or among the replies. The comments count of the post of the
  comment is one less than before.
\<close>

theorem soft_delete_effects:
  assumes e: "delete_comment u i now saved (run rs empty_store) = Inr s'"
    and f: "findComment i (run rs empty_store) = Some c" and nd: "\<not> isDeleted c"
  shows "(\<exists>c'. findComment i s' = Some c' \<and> isDeleted c' \<and> deletedAt c' = Some now \<and>
            comment c' = deletedText) \<and>
         map c_id (comments s') = map c_id (comments (run rs empty_store)) \<and>
         map replies (comments s') = map replies (comments (run rs empty_store)) \<and>
         (\<forall>pid page limit out. list_comments pid page limit s' = Inr out
            \<longrightarrow> (\<forall>(t, shown) \<in> set out. c_id t \<noteq> i \<and> i \<notin> c_id ` set shown)) \<and>
         (\<exists>p p'. findPost (post c) (run rs empty_store) = Some p \<and> findPost (post c) s' = Some p' \<and>
            commentsCount p = commentsCount p' + 1)"
proof -
  let ?s = "run rs empty_store"
  let ?d = "c\<lparr>isDeleted := True, deletedAt := Some now, comment := deletedText\<rparr>"
  let ?c' = "comment_pre_save (Some c) saved ?d"
  let ?s1 = "write_comment (Some c) ?c' ?s"
  have ok: "store_ok ?s" by (rule reachable_ok)
  from delete_comment_Inr [OF e] f have sv: "comment_save (Some c) saved ?d ?s = Inr s'"
    by simp
  from findComment_Some [OF f] have c: "c \<in> set (comments ?s)" and i: "c_id c = i"
    by simp_all
  from comment_save_Inr [OF sv] have s': "s' = comment_post_save ?c' ?s1"
    by simp
  have cs: "comments s' = map (\<lambda>d. if c_id d = c_id c then ?c' else d) (comments ?s)"
    by (simp add: s' write_comment_def)
  have f': "findComment i s' = Some ?c'"
    using f i by (simp add: s' findComment_replace)
  have 1: "\<exists>c'. findComment i s' = Some c' \<and> isDeleted c' \<and> deletedAt c' = Some now \<and>
            comment c' = deletedText"
    using f' by simp
  have 2: "map c_id (comments s') = map c_id (comments ?s)"
    unfolding cs by (rule map_key_replace) simp
  have dist: "distinct (map c_id (comments ?s))"
    using ok by (simp add: store_ok_def ids_ok_def)
  have same: "\<And>d. d \<in> set (comments ?s) \<Longrightarrow> c_id d = c_id c \<Longrightarrow> d = c"
    using dist c by (auto simp: distinct_map dest: inj_onD)
  have 3: "map replies (comments s') = map replies (comments ?s)"
    unfolding cs by (rule map_key_same) (auto dest: same)
  have del: "\<And>d. d \<in> set (comments s') \<Longrightarrow> c_id d = i \<Longrightarrow> isDeleted d"
    unfolding cs using i by auto
  have 4: "\<forall>pid page limit out. list_comments pid page limit s' = Inr out
            \<longrightarrow> (\<forall>(t, shown) \<in> set out. c_id t \<noteq> i \<and> i \<notin> c_id ` set shown)"
  proof (intro allI impI ballI)
    fix pid page limit out x
    assume l: "list_comments pid page limit s' = Inr out" and x: "x \<in> set out"
    obtain t shown where x': "x = (t, shown)" by (cases x)
    from list_comments_shown [OF l] x x'
    have "t \<in> set (comments s') \<and> \<not> isDeleted t"
      and "\<forall>d \<in> set shown. d \<in> set (comments s') \<and> \<not> isDeleted d"
      by blast+
    with del have "c_id t \<noteq> i \<and> i \<notin> c_id ` set shown"
      by blast
    with x' show "case x of (t, shown) \<Rightarrow> c_id t \<noteq> i \<and> i \<notin> c_id ` set shown"
      by simp
  qed
  from ok c obtain p where p: "findPost (post c) ?s = Some p"
    by (auto simp: store_ok_def refs_ok_def list_all_iff)
  with ok findPost_Some [OF p] have cc: "commentsCount p = countDocuments (post c) ?s"
    by (auto simp: store_ok_def counters_ok_def list_all_iff)
  let ?P = "\<lambda>d. post d = post c \<and> \<not> isDeleted d"
  have "length (filter ?P (map (\<lambda>d. if c_id d = c_id c then ?c' else d) (comments ?s)))
          + (if ?P c then 1 else 0)
      = length (filter ?P (comments ?s)) + (if ?P ?c' then 1 else 0)"
    using dist c by (rule count_replace) simp
  then have cnt: "countDocuments (post c) ?s1 + 1 = countDocuments (post c) ?s"
    using nd by (simp add: countDocuments_def write_comment_def)
  have "findPost (post c) s' = Some (p\<lparr>commentsCount := countDocuments (post c) ?s1\<rparr>)"
    using p findPost_Some [OF p] by (simp add: s' findPost_comment_post_save)
  with p cc cnt have 5: "\<exists>p p'. findPost (post c) ?s = Some p \<and> findPost (post c) s' = Some p' \<and>
            commentsCount p = commentsCount p' + 1"
    by simp
  from 1 2 3 4 5 show ?thesis
    by blast
qed

text \<open>The theorem at the reply of the sample thread, which alice deletes.\<close>

theorem soft_delete_effects_witness:
  "\<not> isl (delete_comment alice 2 50 51 (run thread_requests empty_store)) \<and>
   map replies (comments (projr (delete_comment alice 2 50 51 (run thread_requests empty_store))))
     = [[2], []] \<and>
   map (map c_id \<circ> snd) (projr (list_comments 1 0 0 (run thread_requests empty_store))) = [[2]] \<and>
   map (map c_id \<circ> snd)
     (projr (list_comments 1 0 0 (projr (delete_comment alice 2 50 51 (run thread_requests empty_store)))))
     = [[]] \<and>
   map commentsCount (posts (run thread_requests empty_store)) = [2] \<and>
   map commentsCount (posts (projr (delete_comment alice 2 50 51 (run thread_requests empty_store)))) = [1]"
proof -
  let ?s = "run thread_requests empty_store"
  let ?s' = "projr (delete_comment alice 2 50 51 ?s)"
  have n: "\<not> isl (delete_comment alice 2 50 51 ?s)"
    by code_simp
  then have e: "delete_comment alice 2 50 51 ?s = Inr ?s'"
    by (cases "delete_comment alice 2 50 51 ?s") simp_all
  have f: "findComment 2 ?s = Some (the (findComment 2 ?s))"
    and nd: "\<not> isDeleted (the (findComment 2 ?s))"
    by code_simp+
  have k: "map replies (comments ?s) = [[2], []]"
    "map (map c_id \<circ> snd) (projr (list_comments 1 0 0 ?s)) = [[2]]"
    "map (map c_id \<circ> snd) (projr (list_comments 1 0 0 ?s')) = [[]]"
    "map commentsCount (posts ?s) = [2]"
    "map commentsCount (posts ?s') = [1]"
    by code_simp+
  from soft_delete_effects [OF e f nd]
  have "map replies (comments ?s') = map replies (comments ?s)"
    by blast
  with n k show ?thesis
    by simp
qed

subsection \<open>The delete of a post\<close>

lemma find_filter_out:
  "distinct (map k xs) \<Longrightarrow> x \<in> set xs \<Longrightarrow> \<not> P x \<Longrightarrow> find (\<lambda>q. k q = k x) (filter P xs) = None"
  by (auto simp: find_None_key distinct_map dest: inj_onD)

text \<open>
  C8. In the store that any sequence of requests has built from the empty one, a delete
  of a post that succeeds is the request of the author of the post or of an admin. The
  new store is the old one with the comments of the post deleted first and the post
  after that: between the two steps the post is there and has no comment. Afterwards
  the post is gone, and for every comment that was on the post no comment has its id:
  the delete, the like and the edit (with a text that is not blank) of that id fail with
  NotFound.
\<close>

theorem delete_post_cascade:
  assumes e: "delete_post u i (run rs empty_store) = Inr s'"
  shows "(\<exists>p. findPost i (run rs empty_store) = Some p \<and> ownerOrAdmin u (author p)) \<and>
         s' = findByIdAndDelete_post i (deleteMany_comments i (run rs empty_store)) \<and>
         findPost i (deleteMany_comments i (run rs empty_store)) \<noteq> None \<and>
         (\<forall>c \<in> set (comments (deleteMany_comments i (run rs empty_store))). post c \<noteq> i) \<and>
         findPost i s' = None \<and>
         (\<forall>c \<in> set (comments (run rs empty_store)). post c = i \<longrightarrow>
            findComment (c_id c) s' = None \<and>
            (\<forall>v t t' b. delete_comment v (c_id c) t t' s' = Inl NotFound \<and>
               like_comment v (c_id c) t s' = Inl NotFound \<and>
               (\<not> blank b \<longrightarrow> edit_comment v (c_id c) t b s' = Inl NotFound)))"
proof -
  let ?s = "run rs empty_store"
  have ok: "store_ok ?s" by (rule reachable_ok)
  from delete_post_Inr [OF e] obtain p where p: "findPost i ?s = Some p" "ownerOrAdmin u (author p)"
    and s': "s' = findByIdAndDelete_post i (deleteMany_comments i ?s)"
    by blast
  have mid: "findPost i (deleteMany_comments i ?s) \<noteq> None"
    using p by (simp add: findPost_def deleteMany_comments_def)
  have gone: "\<forall>c \<in> set (comments (deleteMany_comments i ?s)). post c \<noteq> i"
    by (simp add: deleteMany_comments_def)
  have np: "findPost i s' = None"
    by (simp add: s' findPost_delete)
  have cs: "comments s' = filter (\<lambda>c. post c \<noteq> i) (comments ?s)"
    by (simp add: s' findByIdAndDelete_post_def deleteMany_comments_def)
  have dist: "distinct (map c_id (comments ?s))"
    using ok by (simp add: store_ok_def ids_ok_def)
  have look: "findComment (c_id c) s' = None" if "c \<in> set (comments ?s)" "post c = i" for c
    unfolding findComment_def cs using dist that by (intro find_filter_out) simp_all
  have "\<forall>c \<in> set (comments ?s). post c = i \<longrightarrow>
            findComment (c_id c) s' = None \<and>
            (\<forall>v t t' b. delete_comment v (c_id c) t t' s' = Inl NotFound \<and>
               like_comment v (c_id c) t s' = Inl NotFound \<and>
               (\<not> blank b \<longrightarrow> edit_comment v (c_id c) t b s' = Inl NotFound))"
    using look by (simp add: delete_comment_def like_comment_def edit_comment_def)
  with p s' mid gone np show ?thesis
    by blast
qed

text \<open>The theorem at the post of the sample thread, which its author deletes.\<close>

theorem delete_post_cascade_witness:
  "\<not> isl (delete_post alice 1 (run thread_requests empty_store)) \<and>
   map post (comments (run thread_requests empty_store)) = [1, 1] \<and>
   findComment 1 (projr (delete_post alice 1 (run thread_requests empty_store))) = None \<and>
   delete_comment bob 1 60 61 (projr (delete_post alice 1 (run thread_requests empty_store)))
     = Inl NotFound"
proof -
  let ?s = "run thread_requests empty_store"
  let ?s' = "projr (delete_post alice 1 ?s)"
  let ?c = "the (findComment 1 ?s)"
  have n: "\<not> isl (delete_post alice 1 ?s)"
    by code_simp
  then have e: "delete_post alice 1 ?s = Inr ?s'"
    by (cases "delete_post alice 1 ?s") simp_all
  have k: "?c \<in> set (comments ?s)" "post ?c = 1" "c_id ?c = 1"
    and m: "map post (comments ?s) = [1, 1]"
    by code_simp+
  from delete_post_cascade [OF e] k(1,2)
  have "findComment (c_id ?c) ?s' = None \<and> delete_comment bob (c_id ?c) 60 61 ?s' = Inl NotFound"
    by blast
  with n k m show ?thesis
    by simp
qed

end
